theory Spec2Isabelle
  imports Main "HOL-Library.Word"
begin

unbundle bit_operations_syntax

section \<open>Machine types\<close>

type_synonym uint8_t = "8 word"
type_synonym uint16_t = "16 word"
type_synonym uint32_t = "32 word"

section \<open>CCD data layer (ccd\_data\_layer.h, ccd\_data\_layer.c)\<close>

subsection \<open>Constants and types of the header\<close>

definition CCD_PIXEL_COUNT :: nat where
  "CCD_PIXEL_COUNT = 3694"

definition FRAME_HEADER_SIZE :: nat where
  "FRAME_HEADER_SIZE = 8"

definition FRAME_PIXEL_SIZE :: nat where
  "FRAME_PIXEL_SIZE = CCD_PIXEL_COUNT * 2"

definition FRAME_FOOTER_SIZE :: nat where
  "FRAME_FOOTER_SIZE = 6"

definition FRAME_TOTAL_SIZE :: nat where
  "FRAME_TOTAL_SIZE = FRAME_HEADER_SIZE + FRAME_PIXEL_SIZE + FRAME_FOOTER_SIZE"

datatype CCD_Frame_Status_t =
  CCD_FRAME_OK
| CCD_FRAME_ERROR_INVALID_DATA
| CCD_FRAME_ERROR_SIZE
| CCD_FRAME_ERROR_CHECKSUM

text \<open>
  The packed struct \<open>CCD_Frame_t\<close>. The two markers are byte arrays of 4 elements and
  \<open>pixel_data\<close> is an array of \<open>CCD_PIXEL_COUNT\<close> 16-bit values; a well-formed struct
  value has lists of exactly these lengths (\<open>frame_wf\<close> below).
\<close>

record CCD_Frame_t =
  start_marker :: "uint8_t list"
  frame_counter :: uint16_t
  pixel_count :: uint16_t
  pixel_data :: "uint16_t list"
  end_marker :: "uint8_t list"
  checksum :: uint16_t

definition frame_wf :: "CCD_Frame_t \<Rightarrow> bool" where
  "frame_wf f \<longleftrightarrow>
     length (start_marker f) = 4 \<and> length (pixel_data f) = CCD_PIXEL_COUNT \<and>
     length (end_marker f) = 4"

text \<open>
  The file-scoped variables of ccd\_data\_layer.c: \<open>static uint16_t frame_counter\<close> and
  \<open>static bool initialized\<close>. The counter is named \<open>frame_counter_var\<close> here, since the
  struct field already has the name \<open>frame_counter\<close>.
\<close>

record ccd_data_layer =
  frame_counter_var :: uint16_t
  initialized :: bool

definition FRAME_START_MARKER :: "uint8_t list" where
  "FRAME_START_MARKER = [0x46, 0x52, 0x4D, 0x45]"

definition FRAME_END_MARKER :: "uint8_t list" where
  "FRAME_END_MARKER = [0x45, 0x4E, 0x44, 0x46]"

definition crc16_table :: "uint16_t list" where
  "crc16_table = [
     0x0000, 0x1021, 0x2042, 0x3063, 0x4084, 0x50A5, 0x60C6, 0x70E7,
     0x8108, 0x9129, 0xA14A, 0xB16B, 0xC18C, 0xD1AD, 0xE1CE, 0xF1EF,
     0x1231, 0x0210, 0x3273, 0x2252, 0x52B5, 0x4294, 0x72F7, 0x62D6,
     0x9339, 0x8318, 0xB37B, 0xA35A, 0xD3BD, 0xC39C, 0xF3FF, 0xE3DE,
     0x2462, 0x3443, 0x0420, 0x1401, 0x64E6, 0x74C7, 0x44A4, 0x5485,
     0xA56A, 0xB54B, 0x8528, 0x9509, 0xE5EE, 0xF5CF, 0xC5AC, 0xD58D,
     0x3653, 0x2672, 0x1611, 0x0630, 0x76D7, 0x66F6, 0x5695, 0x46B4,
     0xB75B, 0xA77A, 0x9719, 0x8738, 0xF7DF, 0xE7FE, 0xD79D, 0xC7BC,
     0x48C4, 0x58E5, 0x6886, 0x78A7, 0x0840, 0x1861, 0x2802, 0x3823,
     0xC9CC, 0xD9ED, 0xE98E, 0xF9AF, 0x8948, 0x9969, 0xA90A, 0xB92B,
     0x5AF5, 0x4AD4, 0x7AB7, 0x6A96, 0x1A71, 0x0A50, 0x3A33, 0x2A12,
     0xDBFD, 0xCBDC, 0xFBBF, 0xEB9E, 0x9B79, 0x8B58, 0xBB3B, 0xAB1A,
     0x6CA6, 0x7C87, 0x4CE4, 0x5CC5, 0x2C22, 0x3C03, 0x0C60, 0x1C41,
     0xEDAE, 0xFD8F, 0xCDEC, 0xDDCD, 0xAD2A, 0xBD0B, 0x8D68, 0x9D49,
     0x7E97, 0x6EB6, 0x5ED5, 0x4EF4, 0x3E13, 0x2E32, 0x1E51, 0x0E70,
     0xFF9F, 0xEFBE, 0xDFDD, 0xCFFC, 0xBF1B, 0xAF3A, 0x9F59, 0x8F78,
     0x9188, 0x81A9, 0xB1CA, 0xA1EB, 0xD10C, 0xC12D, 0xF14E, 0xE16F,
     0x1080, 0x00A1, 0x30C2, 0x20E3, 0x5004, 0x4025, 0x7046, 0x6067,
     0x83B9, 0x9398, 0xA3FB, 0xB3DA, 0xC33D, 0xD31C, 0xE37F, 0xF35E,
     0x02B1, 0x1290, 0x22F3, 0x32D2, 0x4235, 0x5214, 0x6277, 0x7256,
     0xB5EA, 0xA5CB, 0x95A8, 0x8589, 0xF56E, 0xE54F, 0xD52C, 0xC50D,
     0x34E2, 0x24C3, 0x14A0, 0x0481, 0x7466, 0x6447, 0x5424, 0x4405,
     0xA7DB, 0xB7FA, 0x8799, 0x97B8, 0xE75F, 0xF77E, 0xC71D, 0xD73C,
     0x26D3, 0x36F2, 0x0691, 0x16B0, 0x6657, 0x7676, 0x4615, 0x5634,
     0xD94C, 0xC96D, 0xF90E, 0xE92F, 0x99C8, 0x89E9, 0xB98A, 0xA9AB,
     0x5844, 0x4865, 0x7806, 0x6827, 0x18C0, 0x08E1, 0x3882, 0x28A3,
     0xCB7D, 0xDB5C, 0xEB3F, 0xFB1E, 0x8BF9, 0x9BD8, 0xABBB, 0xBB9A,
     0x4A75, 0x5A54, 0x6A37, 0x7A16, 0x0AF1, 0x1AD0, 0x2AB3, 0x3A92,
     0xFD2E, 0xED0F, 0xDD6C, 0xCD4D, 0xBDAA, 0xAD8B, 0x9DE8, 0x8DC9,
     0x7C26, 0x6C07, 0x5C64, 0x4C45, 0x3CA2, 0x2C83, 0x1CE0, 0x0CC1,
     0xEF1F, 0xFF3E, 0xCF5D, 0xDF7C, 0xAF9B, 0xBFBA, 0x8FD9, 0x9FF8,
     0x6E17, 0x7E36, 0x4E55, 0x5E74, 0x2E93, 0x3EB2, 0x0ED1, 0x1EF0]"

subsection \<open>The struct as bytes\<close>

text \<open>
  The code computes the checksum over \<open>(const uint8_t*)frame_out\<close>: the struct is packed
  and the target (Cortex-M4) is little-endian, as the header documents for every 16-bit
  field. \<open>frame_bytes\<close> is that byte image; \<open>bytes_frame\<close> reads a byte image back as
  the struct, which is what a receiver's cast of a buffer does.
\<close>

definition le16 :: "uint16_t \<Rightarrow> uint8_t list" where
  "le16 w = [ucast w, ucast (drop_bit 8 w)]"

definition le16_read :: "uint8_t list \<Rightarrow> nat \<Rightarrow> uint16_t" where
  "le16_read bs off = ucast (bs ! off) OR push_bit 8 (ucast (bs ! (off + 1)))"

definition frame_bytes :: "CCD_Frame_t \<Rightarrow> uint8_t list" where
  "frame_bytes f =
     start_marker f @ le16 (frame_counter f) @ le16 (pixel_count f) @
     concat (map le16 (pixel_data f)) @ end_marker f @ le16 (checksum f)"

definition bytes_frame :: "uint8_t list \<Rightarrow> CCD_Frame_t" where
  "bytes_frame bs =
     \<lparr> start_marker = take 4 bs,
       frame_counter = le16_read bs 4,
       pixel_count = le16_read bs 6,
       pixel_data = map (\<lambda>i. le16_read bs (FRAME_HEADER_SIZE + 2 * i)) [0..<CCD_PIXEL_COUNT],
       end_marker = take 4 (drop (FRAME_HEADER_SIZE + FRAME_PIXEL_SIZE) bs),
       checksum = le16_read bs (FRAME_HEADER_SIZE + FRAME_PIXEL_SIZE + 4) \<rparr>"

subsection \<open>ccd\_data\_layer\_calculate\_crc16\<close>

text \<open>
  One iteration of the loop body: \<open>index = (crc >> 8) ^ data[i]\<close> truncated to 8 bits,
  \<open>crc = (crc << 8) ^ crc16_table[index]\<close> truncated to 16 bits.
\<close>

definition crc16_step :: "uint16_t \<Rightarrow> uint8_t \<Rightarrow> uint16_t" where
  "crc16_step crc d =
     (let index = (ucast (drop_bit 8 crc) :: uint8_t) XOR d
      in push_bit 8 crc XOR crc16_table ! unat index)"

fun crc16_loop :: "uint16_t \<Rightarrow> uint8_t list \<Rightarrow> uint16_t" where
  "crc16_loop crc [] = crc"
| "crc16_loop crc (d # ds) = crc16_loop (crc16_step crc d) ds"

text \<open>
  \<open>data\<close> is the memory behind the pointer and \<open>len\<close> the \<open>length\<close> argument; the loop
  visits \<open>data[0 .. len-1]\<close>. Every caller passes a length within the object.
\<close>

definition ccd_data_layer_calculate_crc16 :: "uint8_t list \<Rightarrow> nat \<Rightarrow> uint16_t" where
  "ccd_data_layer_calculate_crc16 data len = crc16_loop 0xFFFF (take len data)"

subsection \<open>CRC-16-CCITT, bit by bit\<close>

text \<open>
  The reference the table-driven loop is compared with, written from the definition of
  CRC-16-CCITT: polynomial \<open>0x1021\<close>, most significant bit first, no reflection, no
  final xor. One shift step moves the register left by one bit and subtracts the
  polynomial when the bit shifted out was set; a byte is processed by xoring it into the
  high byte of the register and making eight shift steps. Entry \<open>i\<close> of the table
  determined by the polynomial is the register after the byte \<open>i\<close> has been processed
  from the zero register.
\<close>

definition crc16_ccitt_shift :: "uint16_t \<Rightarrow> uint16_t" where
  "crc16_ccitt_shift c = (if bit c 15 then push_bit 1 c XOR 0x1021 else push_bit 1 c)"

definition crc16_ccitt_byte :: "uint16_t \<Rightarrow> uint8_t \<Rightarrow> uint16_t" where
  "crc16_ccitt_byte c d = (crc16_ccitt_shift ^^ 8) (c XOR push_bit 8 (ucast d))"

fun crc16_ccitt_bitwise :: "uint16_t \<Rightarrow> uint8_t list \<Rightarrow> uint16_t" where
  "crc16_ccitt_bitwise c [] = c"
| "crc16_ccitt_bitwise c (d # ds) = crc16_ccitt_bitwise (crc16_ccitt_byte c d) ds"

definition crc16_ccitt_table_entry :: "nat \<Rightarrow> uint16_t" where
  "crc16_ccitt_table_entry i = (crc16_ccitt_shift ^^ 8) (push_bit 8 (of_nat i))"

subsection \<open>Initialisation, frame construction, validation\<close>

definition ccd_data_layer_init :: "ccd_data_layer \<Rightarrow> CCD_Frame_Status_t \<times> ccd_data_layer" where
  "ccd_data_layer_init s = (CCD_FRAME_OK, s\<lparr>frame_counter_var := 0, initialized := True\<rparr>)"

text \<open>
  \<open>adc_buffer\<close> and \<open>frame_out\<close> are pointers: \<open>None\<close> is \<open>NULL\<close>, \<open>Some\<close> carries the
  object pointed to (for \<open>frame_out\<close> its contents before the call). The copy loop reads
  \<open>adc_buffer[i]\<close> for every \<open>i < CCD_PIXEL_COUNT\<close>; the buffer must hold at least that
  many samples, which the theorems below assume. The result is the returned status, the
  contents of \<open>*frame_out\<close> after the call, and the new file-scoped state.
\<close>

definition ccd_data_layer_process_readout ::
  "ccd_data_layer \<Rightarrow> uint16_t list option \<Rightarrow> CCD_Frame_t option \<Rightarrow>
   CCD_Frame_Status_t \<times> CCD_Frame_t option \<times> ccd_data_layer" where
  "ccd_data_layer_process_readout s adc_buffer frame_out =
     (if \<not> initialized s then (CCD_FRAME_ERROR_INVALID_DATA, frame_out, s)
      else case adc_buffer of
        None \<Rightarrow> (CCD_FRAME_ERROR_INVALID_DATA, frame_out, s)
      | Some adc \<Rightarrow>
         (case frame_out of
            None \<Rightarrow> (CCD_FRAME_ERROR_INVALID_DATA, frame_out, s)
          | Some f0 \<Rightarrow>
             (let f1 = f0\<lparr>start_marker := FRAME_START_MARKER,
                         frame_counter := frame_counter_var s,
                         pixel_count := of_nat CCD_PIXEL_COUNT\<rparr>;
                  f2 = f1\<lparr>pixel_data := map (\<lambda>i. adc ! i) [0..<CCD_PIXEL_COUNT]\<rparr>;
                  f3 = f2\<lparr>end_marker := FRAME_END_MARKER\<rparr>;
                  checksum_length = FRAME_TOTAL_SIZE - 2;
                  f4 = f3\<lparr>checksum :=
                         ccd_data_layer_calculate_crc16 (frame_bytes f3) checksum_length\<rparr>
              in (CCD_FRAME_OK, Some f4, s\<lparr>frame_counter_var := frame_counter_var s + 1\<rparr>))))"

definition ccd_data_layer_get_frame_count :: "ccd_data_layer \<Rightarrow> uint16_t" where
  "ccd_data_layer_get_frame_count s = frame_counter_var s"

definition ccd_data_layer_validate_frame :: "CCD_Frame_t option \<Rightarrow> CCD_Frame_Status_t" where
  "ccd_data_layer_validate_frame frame =
     (case frame of
        None \<Rightarrow> CCD_FRAME_ERROR_INVALID_DATA
      | Some f \<Rightarrow>
          if take 4 (start_marker f) \<noteq> take 4 FRAME_START_MARKER
            then CCD_FRAME_ERROR_INVALID_DATA
          else if take 4 (end_marker f) \<noteq> take 4 FRAME_END_MARKER
            then CCD_FRAME_ERROR_INVALID_DATA
          else if pixel_count f \<noteq> of_nat CCD_PIXEL_COUNT
            then CCD_FRAME_ERROR_SIZE
          else
            (let checksum_length = FRAME_TOTAL_SIZE - 2;
                 calculated_crc = ccd_data_layer_calculate_crc16 (frame_bytes f) checksum_length
             in if calculated_crc \<noteq> checksum f then CCD_FRAME_ERROR_CHECKSUM
                else CCD_FRAME_OK))"

definition ccd_data_layer_reset_counter :: "ccd_data_layer \<Rightarrow> ccd_data_layer" where
  "ccd_data_layer_reset_counter s = s\<lparr>frame_counter_var := 0\<rparr>"

section \<open>Ring buffer (ring\_buffer.h, ring\_buffer.c)\<close>

text \<open>
  The struct \<open>ring_buffer_t\<close>. \<open>buffer\<close> is the storage array the pointer refers to;
  the field \<open>size\<close> is named \<open>size_rb\<close> here.
\<close>

record ring_buffer_t =
  buffer :: "uint8_t list"
  head :: uint16_t
  tail :: uint16_t
  size_rb :: uint16_t

definition ring_buffer_init :: "uint8_t list \<Rightarrow> uint16_t \<Rightarrow> ring_buffer_t" where
  "ring_buffer_init storage sz = \<lparr> buffer = storage, head = 0, tail = 0, size_rb = sz \<rparr>"

text \<open>
  \<open>(rb->head + 1) % rb->size\<close> is computed on \<open>int\<close> after integer promotion, so the
  addition does not wrap at 16 bits; the result is then stored into a \<open>uint16_t\<close>.
  A size of 0 is a division by zero in C; the theorems below assume a non-zero size.
\<close>

definition next_index :: "uint16_t \<Rightarrow> uint16_t \<Rightarrow> uint16_t" where
  "next_index i sz = word_of_nat ((unat i + 1) mod unat sz)"

definition ring_buffer_write :: "ring_buffer_t \<Rightarrow> uint8_t \<Rightarrow> bool \<times> ring_buffer_t" where
  "ring_buffer_write rb data =
     (let next_head = next_index (head rb) (size_rb rb)
      in if next_head = tail rb then (False, rb)
         else (True, rb\<lparr>buffer := (buffer rb)[unat (head rb) := data], head := next_head\<rparr>))"

text \<open>
  \<open>ring_buffer_read\<close> and \<open>ring_buffer_peek\<close> return \<open>false\<close> and leave \<open>*data\<close> alone
  (\<open>None\<close>), or return \<open>true\<close> with the byte stored to \<open>*data\<close> (\<open>Some\<close>).
\<close>

definition ring_buffer_read :: "ring_buffer_t \<Rightarrow> uint8_t option \<times> ring_buffer_t" where
  "ring_buffer_read rb =
     (if head rb = tail rb then (None, rb)
      else (Some (buffer rb ! unat (tail rb)),
            rb\<lparr>tail := next_index (tail rb) (size_rb rb)\<rparr>))"

fun write_multiple_loop ::
  "ring_buffer_t \<Rightarrow> uint8_t list \<Rightarrow> uint16_t \<Rightarrow> uint16_t \<times> ring_buffer_t" where
  "write_multiple_loop rb [] written = (written, rb)"
| "write_multiple_loop rb (d # ds) written =
     (case ring_buffer_write rb d of
        (False, rb') \<Rightarrow> (written, rb')
      | (True, rb') \<Rightarrow> write_multiple_loop rb' ds (written + 1))"

text \<open>
  \<open>data\<close> is the memory behind the pointer, \<open>len\<close> the \<open>length\<close> argument: the loop
  visits \<open>data[0 .. len-1]\<close> and stops at the first write that fails.
\<close>

definition ring_buffer_write_multiple ::
  "ring_buffer_t \<Rightarrow> uint8_t list \<Rightarrow> uint16_t \<Rightarrow> uint16_t \<times> ring_buffer_t" where
  "ring_buffer_write_multiple rb data len = write_multiple_loop rb (take (unat len) data) 0"

fun read_multiple_loop :: "ring_buffer_t \<Rightarrow> nat \<Rightarrow> uint8_t list \<times> ring_buffer_t" where
  "read_multiple_loop rb 0 = ([], rb)"
| "read_multiple_loop rb (Suc n) =
     (case ring_buffer_read rb of
        (None, rb') \<Rightarrow> ([], rb')
      | (Some d, rb') \<Rightarrow>
          (let (ds, rb'') = read_multiple_loop rb' n in (d # ds, rb'')))"

text \<open>
  The result is \<open>read_count\<close>, the bytes stored to \<open>data[0 .. read_count-1]\<close>, and the
  buffer afterwards.
\<close>

definition ring_buffer_read_multiple ::
  "ring_buffer_t \<Rightarrow> uint16_t \<Rightarrow> uint16_t \<times> uint8_t list \<times> ring_buffer_t" where
  "ring_buffer_read_multiple rb len =
     (let (ds, rb') = read_multiple_loop rb (unat len)
      in (word_of_nat (length ds), ds, rb'))"

definition ring_buffer_available :: "ring_buffer_t \<Rightarrow> uint16_t" where
  "ring_buffer_available rb =
     (if head rb \<ge> tail rb then head rb - tail rb
      else size_rb rb - tail rb + head rb)"

definition ring_buffer_free_space :: "ring_buffer_t \<Rightarrow> uint16_t" where
  "ring_buffer_free_space rb = size_rb rb - ring_buffer_available rb - 1"

definition ring_buffer_is_empty :: "ring_buffer_t \<Rightarrow> bool" where
  "ring_buffer_is_empty rb \<longleftrightarrow> head rb = tail rb"

definition ring_buffer_is_full :: "ring_buffer_t \<Rightarrow> bool" where
  "ring_buffer_is_full rb \<longleftrightarrow> next_index (head rb) (size_rb rb) = tail rb"

definition ring_buffer_clear :: "ring_buffer_t \<Rightarrow> ring_buffer_t" where
  "ring_buffer_clear rb = rb\<lparr>head := 0, tail := 0\<rparr>"

definition ring_buffer_peek :: "ring_buffer_t \<Rightarrow> uint8_t option" where
  "ring_buffer_peek rb =
     (if head rb = tail rb then None else Some (buffer rb ! unat (tail rb)))"

text \<open>
  The condition the code relies on: a non-zero size and both indices within it;
  \<open>rb_wf\<close> adds that the storage array is at least as long as the size. \<open>rb_contents\<close>
  lists the queued bytes, oldest first.
\<close>

definition rb_inv :: "ring_buffer_t \<Rightarrow> bool" where
  "rb_inv rb \<longleftrightarrow> size_rb rb \<noteq> 0 \<and> head rb < size_rb rb \<and> tail rb < size_rb rb"

definition rb_wf :: "ring_buffer_t \<Rightarrow> bool" where
  "rb_wf rb \<longleftrightarrow> rb_inv rb \<and> unat (size_rb rb) \<le> length (buffer rb)"

definition rb_contents :: "ring_buffer_t \<Rightarrow> uint8_t list" where
  "rb_contents rb =
     map (\<lambda>k. buffer rb ! ((unat (tail rb) + k) mod unat (size_rb rb)))
       [0..<unat (ring_buffer_available rb)]"

text \<open>
  The operations a client can apply to a buffer, for statements about every reachable
  state. The results returned to the client are dropped; only the buffer is kept.
\<close>

datatype rb_op =
  Op_write uint8_t
| Op_read
| Op_peek
| Op_write_multiple "uint8_t list" uint16_t
| Op_read_multiple uint16_t
| Op_clear

fun rb_apply :: "ring_buffer_t \<Rightarrow> rb_op \<Rightarrow> ring_buffer_t" where
  "rb_apply rb (Op_write d) = snd (ring_buffer_write rb d)"
| "rb_apply rb Op_read = snd (ring_buffer_read rb)"
| "rb_apply rb Op_peek = rb"
| "rb_apply rb (Op_write_multiple ds len) = snd (ring_buffer_write_multiple rb ds len)"
| "rb_apply rb (Op_read_multiple len) = snd (snd (ring_buffer_read_multiple rb len))"
| "rb_apply rb Op_clear = ring_buffer_clear rb"

definition rb_run :: "ring_buffer_t \<Rightarrow> rb_op list \<Rightarrow> ring_buffer_t" where
  "rb_run rb ops = foldl rb_apply rb ops"

section \<open>USB transport (usb\_transport.h, usb\_transport.c)\<close>

definition USB_RX_BUFFER_SIZE :: nat where
  "USB_RX_BUFFER_SIZE = 256"

definition USB_TX_BUFFER_SIZE :: nat where
  "USB_TX_BUFFER_SIZE = 512"

record usb_transport_stats_t =
  rx_bytes_total :: uint32_t
  tx_bytes_total :: uint32_t
  rx_overflow_count :: uint32_t
  tx_overflow_count :: uint32_t

text \<open>
  The file-scoped variables of usb\_transport.c. The two storage arrays are the \<open>buffer\<close>
  fields of the two ring buffers.
\<close>

record usb_transport =
  rx_ring_buffer :: ring_buffer_t
  tx_ring_buffer :: ring_buffer_t
  tx_in_progress :: bool
  stats :: usb_transport_stats_t

definition usb_transport_reset_stats :: "usb_transport \<Rightarrow> usb_transport" where
  "usb_transport_reset_stats t =
     t\<lparr>stats := \<lparr> rx_bytes_total = 0, tx_bytes_total = 0,
                   rx_overflow_count = 0, tx_overflow_count = 0 \<rparr>\<rparr>"

text \<open>
  \<open>usb_transport_init\<close> is called once at startup, when the static storage arrays still
  hold the zeros C gives them.
\<close>

definition usb_transport_init :: usb_transport where
  "usb_transport_init =
     usb_transport_reset_stats
       \<lparr> rx_ring_buffer =
           ring_buffer_init (replicate USB_RX_BUFFER_SIZE 0) (word_of_nat USB_RX_BUFFER_SIZE),
         tx_ring_buffer =
           ring_buffer_init (replicate USB_TX_BUFFER_SIZE 0) (word_of_nat USB_TX_BUFFER_SIZE),
         tx_in_progress = False,
         stats = \<lparr> rx_bytes_total = 0, tx_bytes_total = 0,
                   rx_overflow_count = 0, tx_overflow_count = 0 \<rparr> \<rparr>"

definition usb_transport_available :: "usb_transport \<Rightarrow> uint16_t" where
  "usb_transport_available t = ring_buffer_available (rx_ring_buffer t)"

definition usb_transport_read_byte :: "usb_transport \<Rightarrow> uint8_t option \<times> usb_transport" where
  "usb_transport_read_byte t =
     (let (d, rb') = ring_buffer_read (rx_ring_buffer t) in (d, t\<lparr>rx_ring_buffer := rb'\<rparr>))"

definition usb_transport_write ::
  "usb_transport \<Rightarrow> uint8_t list \<Rightarrow> uint16_t \<Rightarrow> uint16_t \<times> usb_transport" where
  "usb_transport_write t data len =
     (let (written, rb') = ring_buffer_write_multiple (tx_ring_buffer t) data len;
          st = stats t;
          st1 = st\<lparr>tx_bytes_total := tx_bytes_total st + ucast written\<rparr>;
          st2 = (if written < len
                 then st1\<lparr>tx_overflow_count := tx_overflow_count st1 + 1\<rparr> else st1)
      in (written, t\<lparr>tx_ring_buffer := rb', stats := st2\<rparr>))"

text \<open>
  A C string is the list of its bytes before the terminating NUL; \<open>strlen\<close> is its
  length, here converted to the \<open>uint16_t\<close> parameter of \<open>usb_transport_write\<close>.
\<close>

definition usb_transport_write_string ::
  "usb_transport \<Rightarrow> uint8_t list \<Rightarrow> uint16_t \<times> usb_transport" where
  "usb_transport_write_string t str = usb_transport_write t str (word_of_nat (length str))"

definition usb_transport_rx_callback ::
  "usb_transport \<Rightarrow> uint8_t list \<Rightarrow> uint32_t \<Rightarrow> usb_transport" where
  "usb_transport_rx_callback t data len =
     (let (written, rb') = ring_buffer_write_multiple (rx_ring_buffer t) data (ucast len);
          st = stats t;
          st1 = st\<lparr>rx_bytes_total := rx_bytes_total st + ucast written\<rparr>;
          st2 = (if (ucast written :: uint32_t) < len
                 then st1\<lparr>rx_overflow_count := rx_overflow_count st1 + 1\<rparr> else st1)
      in t\<lparr>rx_ring_buffer := rb', stats := st2\<rparr>)"

section \<open>Command layer (command\_layer.h, command\_layer.c)\<close>

definition CMD_BUFFER_SIZE :: nat where
  "CMD_BUFFER_SIZE = 64"

datatype Command_Status_t =
  CMD_OK
| CMD_ERROR_UNKNOWN
| CMD_ERROR_INVALID_PARAM
| CMD_ERROR_NOT_IMPLEMENTED
| CMD_ERROR_BUSY

datatype Acquisition_State_t =
  ACQ_STATE_IDLE
| ACQ_STATE_RUNNING

text \<open>
  The timer handle \<open>htim5\<close> belongs to the vendor HAL, outside this repository. Only
  what the command layer does to it is kept: whether PWM on channel 3 is started, and the
  auto-reload, compare and counter registers.
\<close>

record TIM_HandleTypeDef =
  tim_pwm_started :: bool
  tim_autoreload :: uint32_t
  tim_compare :: uint32_t
  tim_counter :: uint32_t

definition HAL_TIM_PWM_Stop :: "TIM_HandleTypeDef \<Rightarrow> TIM_HandleTypeDef" where
  "HAL_TIM_PWM_Stop h = h\<lparr>tim_pwm_started := False\<rparr>"

definition HAL_TIM_PWM_Start :: "TIM_HandleTypeDef \<Rightarrow> TIM_HandleTypeDef" where
  "HAL_TIM_PWM_Start h = h\<lparr>tim_pwm_started := True\<rparr>"

text \<open>
  The file-scoped variables of command\_layer.c, together with the state of the two
  collaborators its functions act on: the USB transport and the timer handle.
\<close>

record command_layer =
  acquisition_state :: Acquisition_State_t
  integration_time_us :: uint32_t
  command_buffer :: "uint8_t list"
  command_index :: uint8_t
  usb :: usb_transport
  htim5 :: TIM_HandleTypeDef

subsection \<open>C strings and the libc functions used\<close>

text \<open>A string literal as bytes.\<close>

definition c_str :: "string \<Rightarrow> uint8_t list" where
  "c_str s = map of_char s"

text \<open>The C string held in a char array: the bytes before the first NUL.\<close>

definition c_string_of :: "uint8_t list \<Rightarrow> uint8_t list" where
  "c_string_of arr = takeWhile (\<lambda>c. c \<noteq> 0) arr"

text \<open>
  \<open>snprintf(buf, n, ...)\<close> stores at most \<open>n - 1\<close> characters of the formatted text,
  followed by NUL.
\<close>

definition snprintf :: "nat \<Rightarrow> uint8_t list \<Rightarrow> uint8_t list" where
  "snprintf n formatted = take (n - 1) formatted"

text \<open>The conversion \<open>%lu\<close>: decimal digits, no leading zeros.\<close>

function format_lu :: "nat \<Rightarrow> uint8_t list" where
  "format_lu n =
     (if n < 10 then [word_of_nat (48 + n)]
      else format_lu (n div 10) @ [word_of_nat (48 + n mod 10)])"
  by pat_completeness auto
termination
  by (relation "measure (\<lambda>n. n)") auto

declare format_lu.simps [simp del]

text \<open>
  \<open>atoi\<close> of the C library of the target (newlib) is \<open>strtol\<close> in base 10 converted
  to \<open>int\<close>: optional white space, an optional sign, then decimal digits up to the first
  other character. \<open>int\<close> and \<open>long\<close> have 32 bits, and \<open>strtol\<close> returns
  \<open>LONG_MAX\<close> or \<open>LONG_MIN\<close> when the value is out of range.
\<close>

definition isspace :: "uint8_t \<Rightarrow> bool" where
  "isspace c \<longleftrightarrow> c = 0x20 \<or> (0x09 \<le> c \<and> c \<le> 0x0D)"

definition isdigit :: "uint8_t \<Rightarrow> bool" where
  "isdigit c \<longleftrightarrow> 0x30 \<le> c \<and> c \<le> 0x39"

fun atoi_digits :: "int \<Rightarrow> uint8_t list \<Rightarrow> int" where
  "atoi_digits acc [] = acc"
| "atoi_digits acc (c # cs) =
     (if isdigit c then atoi_digits (acc * 10 + (uint c - 48)) cs else acc)"

definition atoi :: "uint8_t list \<Rightarrow> int" where
  "atoi str =
     (let v = (case dropWhile isspace str of
                 [] \<Rightarrow> 0
               | c # cs \<Rightarrow>
                   if c = 0x2D then - atoi_digits 0 cs
                   else if c = 0x2B then atoi_digits 0 cs
                   else atoi_digits 0 (c # cs))
      in max (- 2147483648) (min 2147483647 v))"

subsection \<open>Responses and command handlers\<close>

definition send_response :: "command_layer \<Rightarrow> uint8_t list \<Rightarrow> command_layer" where
  "send_response s response = s\<lparr>usb := snd (usb_transport_write_string (usb s) response)\<rparr>"

definition command_layer_init :: "command_layer \<Rightarrow> Command_Status_t \<times> command_layer" where
  "command_layer_init s =
     (CMD_OK,
      send_response
        (s\<lparr>acquisition_state := ACQ_STATE_IDLE, integration_time_us := 20,
           command_index := 0, command_buffer := replicate CMD_BUFFER_SIZE 0\<rparr>)
        (c_str ''TCD1304_READY\<newline>''))"

definition command_layer_is_acquiring :: "command_layer \<Rightarrow> bool" where
  "command_layer_is_acquiring s \<longleftrightarrow> acquisition_state s = ACQ_STATE_RUNNING"

definition command_layer_get_state :: "command_layer \<Rightarrow> Acquisition_State_t" where
  "command_layer_get_state s = acquisition_state s"

definition command_layer_get_integration_time :: "command_layer \<Rightarrow> uint32_t" where
  "command_layer_get_integration_time s = integration_time_us s"

definition command_handle_start :: "command_layer \<Rightarrow> command_layer" where
  "command_handle_start s =
     send_response (s\<lparr>acquisition_state := ACQ_STATE_RUNNING\<rparr>) (c_str ''OK:STARTED\<newline>'')"

definition command_handle_stop :: "command_layer \<Rightarrow> command_layer" where
  "command_handle_stop s =
     send_response (s\<lparr>acquisition_state := ACQ_STATE_IDLE\<rparr>) (c_str ''OK:STOPPED\<newline>'')"

text \<open>
  \<open>command_handle_set_integration_time\<close> as in the current revision of command\_layer.c
  (the second copy of the file, the one that uses \<open>CMD_ERROR_BUSY\<close> of the header and
  reprograms TIM5).
\<close>

definition command_handle_set_integration_time ::
  "command_layer \<Rightarrow> uint32_t \<Rightarrow> Command_Status_t \<times> command_layer" where
  "command_handle_set_integration_time s microseconds =
     (if acquisition_state s = ACQ_STATE_RUNNING
        then (CMD_ERROR_BUSY, send_response s (c_str ''ERROR:MUST_STOP_FIRST\<newline>''))
      else if microseconds < 10 \<or> microseconds > 100000
        then (CMD_ERROR_INVALID_PARAM,
              send_response s (c_str ''ERROR:RANGE_10_TO_100000\<newline>''))
      else
        (let h1 = HAL_TIM_PWM_Stop (htim5 s);
             arr_value = 84 * microseconds - 1;
             ccr_value = 335;
             h2 = h1\<lparr>tim_autoreload := arr_value\<rparr>;
             h3 = h2\<lparr>tim_compare := ccr_value\<rparr>;
             h4 = h3\<lparr>tim_counter := 0\<rparr>;
             h5 = HAL_TIM_PWM_Start h4;
             s1 = s\<lparr>htim5 := h5, integration_time_us := microseconds\<rparr>;
             response = snprintf 64
               (c_str ''OK:INT_TIME_SET:'' @ format_lu (unat microseconds) @ c_str ''\<newline>'')
         in (CMD_OK, send_response s1 response)))"

text \<open>
  The same function in the earlier revision of the file (the first copy), a stub: no
  state check, no response of its own.
\<close>

definition command_handle_set_integration_time_stub ::
  "command_layer \<Rightarrow> uint32_t \<Rightarrow> Command_Status_t \<times> command_layer" where
  "command_handle_set_integration_time_stub s microseconds =
     (if microseconds < 10 \<or> microseconds > 100000 then (CMD_ERROR_INVALID_PARAM, s)
      else (CMD_ERROR_NOT_IMPLEMENTED, s\<lparr>integration_time_us := microseconds\<rparr>))"

definition command_handle_get_status :: "command_layer \<Rightarrow> command_layer" where
  "command_handle_get_status s =
     (let state_str = (if acquisition_state s = ACQ_STATE_RUNNING
                       then c_str ''RUNNING'' else c_str ''IDLE'');
          response = snprintf 128
            (c_str ''STATUS:'' @ state_str @ c_str '',INT_TIME:'' @
             format_lu (unat (integration_time_us s)) @ c_str ''\<newline>'')
      in send_response s response)"

subsection \<open>Parsing and the processing loop\<close>

text \<open>
  \<open>cmd\<close> is the char array the pointer refers to. \<open>strncpy\<close> with the terminator stored
  after it leaves the first \<open>CMD_BUFFER_SIZE - 1\<close> characters of the string; the loop
  then removes trailing spaces and carriage returns.
\<close>

definition parse_and_execute_command :: "command_layer \<Rightarrow> uint8_t list \<Rightarrow> command_layer" where
  "parse_and_execute_command s cmd =
     (let copied = take (CMD_BUFFER_SIZE - 1) (c_string_of cmd);
          clean_cmd = rev (dropWhile (\<lambda>c. c = 0x20 \<or> c = 0x0D) (rev copied))
      in if clean_cmd = c_str ''START'' then command_handle_start s
         else if clean_cmd = c_str ''STOP'' then command_handle_stop s
         else if clean_cmd = c_str ''STATUS'' then command_handle_get_status s
         else if take 13 clean_cmd = c_str ''SET_INT_TIME:'' then
           (let param_str = drop 13 clean_cmd;
                int_time = (word_of_int (atoi param_str) :: uint32_t);
                (status, s1) = command_handle_set_integration_time s int_time
            in if status = CMD_OK then send_response s1 (c_str ''OK:INT_TIME_SET\<newline>'')
               else if status = CMD_ERROR_NOT_IMPLEMENTED
                 then send_response s1 (c_str ''ERROR:NOT_IMPLEMENTED\<newline>'')
               else send_response s1 (c_str ''ERROR:INVALID_PARAM\<newline>''))
         else
           send_response s
             (snprintf 64 (c_str ''ERROR:UNKNOWN_CMD:'' @ clean_cmd @ c_str ''\<newline>'')))"

text \<open>The body of the \<open>while\<close> loop of \<open>command_layer_process\<close>, once a byte is read.\<close>

definition process_byte :: "command_layer \<Rightarrow> uint8_t \<Rightarrow> command_layer" where
  "process_byte s byte =
     (if byte = 0x0A \<or> byte = 0x0D then
        (if command_index s > 0 then
           (let s1 = s\<lparr>command_buffer := (command_buffer s)[unat (command_index s) := 0]\<rparr>;
                s2 = parse_and_execute_command s1 (command_buffer s1)
            in s2\<lparr>command_index := 0\<rparr>)
         else s)
      else if unat (command_index s) < CMD_BUFFER_SIZE - 1 then
        s\<lparr>command_buffer := (command_buffer s)[unat (command_index s) := byte],
          command_index := command_index s + 1\<rparr>
      else
        send_response (s\<lparr>command_index := 0\<rparr>) (c_str ''ERROR:CMD_TOO_LONG\<newline>''))"

text \<open>
  The loop runs while the receive buffer reports bytes. On a buffer whose indices are
  not within its size it need not terminate, so the result is an option.
\<close>

partial_function (option) command_layer_process :: "command_layer \<Rightarrow> command_layer option" where
  "command_layer_process s =
     (if usb_transport_available (usb s) \<noteq> 0 then
        (case usb_transport_read_byte (usb s) of
           (None, t') \<Rightarrow> Some (s\<lparr>usb := t'\<rparr>)
         | (Some byte, t') \<Rightarrow> command_layer_process (process_byte (s\<lparr>usb := t'\<rparr>) byte))
      else Some s)"

declare command_layer_process.simps [code]

text \<open>
  \<open>set_rx\<close> replaces the receive buffer of the transport inside the command layer's
  state; it is used to say that the command layer never touches the receive buffer
  except by reading bytes from it.
\<close>

definition set_rx :: "ring_buffer_t \<Rightarrow> command_layer \<Rightarrow> command_layer" where
  "set_rx r s = s\<lparr>usb := (usb s)\<lparr>rx_ring_buffer := r\<rparr>\<rparr>"

text \<open>
  The state once \<open>usb_transport_init\<close> and \<open>command_layer_init\<close> have run at start-up:
  the static variables hold their C initialisers, and TIM5 runs with the period of the
  default 20 microseconds.
\<close>

definition power_on :: command_layer where
  "power_on =
     snd (command_layer_init
       \<lparr> acquisition_state = ACQ_STATE_IDLE, integration_time_us = 20,
         command_buffer = replicate CMD_BUFFER_SIZE 0, command_index = 0,
         usb = usb_transport_init,
         htim5 = \<lparr> tim_pwm_started = True, tim_autoreload = 1679,
                   tim_compare = 335, tim_counter = 0 \<rparr> \<rparr>)"

text \<open>Bytes arriving from the host: the transport's receive callback.\<close>

definition receive :: "command_layer \<Rightarrow> uint8_t list \<Rightarrow> command_layer" where
  "receive s data =
     s\<lparr>usb := usb_transport_rx_callback (usb s) data (word_of_nat (length data))\<rparr>"


section \<open>Properties of the CRC\<close>

lemma shift_xor: "crc16_ccitt_shift (a XOR b) = crc16_ccitt_shift a XOR crc16_ccitt_shift b"
  by (simp add: crc16_ccitt_shift_def bit_xor_iff push_bit_xor ac_simps)

lemma shift_pow_xor:
  "(crc16_ccitt_shift ^^ k) (a XOR b) = (crc16_ccitt_shift ^^ k) a XOR (crc16_ccitt_shift ^^ k) b"
  by (induction k) (simp_all add: shift_xor)

lemma shift_bit0: "bit (crc16_ccitt_shift a) 0 = bit a 15"
  by (simp add: crc16_ccitt_shift_def bit_0 even_xor_iff)

lemma xor_cancel_right: "a XOR k = b XOR k \<Longrightarrow> a = b" for a b k :: uint16_t
proof -
  assume "a XOR k = b XOR k"
  then have "(a XOR k) XOR k = (b XOR k) XOR k" by simp
  then show "a = b" by (simp add: xor.assoc)
qed

lemma shift_inj: "crc16_ccitt_shift a = crc16_ccitt_shift b \<Longrightarrow> a = b"
proof -
  assume eq: "crc16_ccitt_shift a = crc16_ccitt_shift b"
  then have top: "bit a 15 = bit b 15"
    using shift_bit0 [of a] shift_bit0 [of b] by simp
  with eq have p: "push_bit 1 a = push_bit 1 b"
    unfolding crc16_ccitt_shift_def by (auto dest: xor_cancel_right simp del: push_bit_of_1)
  show "a = b"
  proof (rule bit_word_eqI)
    fix n assume n: "n < LENGTH(16)"
    show "bit a n = bit b n"
    proof (cases "n = 15")
      case True with top show ?thesis by simp
    next
      case False
      with n have "Suc n < 16" by simp
      then have "bit (push_bit 1 a) (Suc n) = bit a n" "bit (push_bit 1 b) (Suc n) = bit b n"
        by (simp_all only: bit_push_bit_iff possible_bit_word) simp_all
      with p show ?thesis by simp
    qed
  qed
qed

lemma shift_pow_inj: "(crc16_ccitt_shift ^^ k) a = (crc16_ccitt_shift ^^ k) b \<Longrightarrow> a = b"
  by (induction k) (auto dest: shift_inj)

lemma shift_small: "k \<le> 8 \<Longrightarrow> (crc16_ccitt_shift ^^ k) (take_bit 8 c) = push_bit k (take_bit 8 c)"
proof (induction k)
  case 0 show ?case by simp
next
  case (Suc k)
  then have "\<not> bit (push_bit k (take_bit 8 c)) 15"
    by (auto simp add: bit_push_bit_iff bit_take_bit_iff)
  with Suc show ?case
    by (simp add: crc16_ccitt_shift_def push_bit_push_bit)
qed

lemma split_word: "c XOR push_bit 8 (ucast d) =
   take_bit 8 c XOR push_bit 8 (ucast ((ucast (drop_bit 8 c) :: uint8_t) XOR d))" for c :: uint16_t and d :: uint8_t
  apply (rule bit_word_eqI)
  apply (auto simp add: bit_xor_iff bit_push_bit_iff bit_take_bit_iff bit_ucast_iff bit_drop_bit_eq)
  done

lemma funpow8: "(f ^^ 8) x = f (f (f (f (f (f (f (f x)))))))"
  by (simp add: eval_nat_numeral)

lemma tab: "map crc16_ccitt_table_entry [0..<256] = crc16_table"
  by (simp add: upt_rec crc16_table_def crc16_ccitt_table_entry_def funpow8 crc16_ccitt_shift_def)

lemma table_nth: "i < 256 \<Longrightarrow> crc16_table ! i = crc16_ccitt_table_entry i"
proof -
  assume "i < 256"
  then have "map crc16_ccitt_table_entry [0..<256] ! i = crc16_ccitt_table_entry i"
    by (simp del: upt_conv_Cons upt_rec_numeral)
  then show ?thesis by (simp only: tab)
qed

lemma unat_byte_less: "unat (x :: uint8_t) < 256"
  using unsigned_less [of x, where ?'a = nat] by simp

lemma push8_take8: "push_bit 8 (take_bit 8 c) = push_bit 8 c" for c :: uint16_t
  by (rule bit_word_eqI) (auto simp add: bit_push_bit_iff bit_take_bit_iff)

lemma step_bitwise:
  "crc16_step c d = (crc16_ccitt_shift ^^ 8) (c XOR push_bit 8 (ucast d))"
proof -
  let ?idx = "(ucast (drop_bit 8 c) :: uint8_t) XOR d"
  have "(crc16_ccitt_shift ^^ 8) (c XOR push_bit 8 (ucast d)) =
        (crc16_ccitt_shift ^^ 8) (take_bit 8 c) XOR
        (crc16_ccitt_shift ^^ 8) (push_bit 8 (ucast ?idx))"
    by (simp only: split_word [of c d] shift_pow_xor)
  also have "(crc16_ccitt_shift ^^ 8) (take_bit 8 c) = push_bit 8 c"
    by (simp only: shift_small [of 8 c, simplified] push8_take8)
  also have "(crc16_ccitt_shift ^^ 8) (push_bit 8 (ucast ?idx)) = crc16_ccitt_table_entry (unat ?idx)"
    by (simp only: crc16_ccitt_table_entry_def of_nat_unat)
  also have "\<dots> = crc16_table ! unat ?idx"
    by (simp only: table_nth [OF unat_byte_less])
  finally show ?thesis
    by (simp only: crc16_step_def Let_def)
qed

lemma xor_cancel_left: "k XOR a = k XOR b \<Longrightarrow> a = b" for a b k :: uint16_t
  using xor_cancel_right [of a k b] by (simp add: xor.commute)

lemma step_inj_state: "crc16_step a d = crc16_step b d \<Longrightarrow> a = b"
  by (auto simp add: step_bitwise dest!: shift_pow_inj xor_cancel_right)

lemma push8_ucast_inj: "push_bit 8 (ucast d) = (push_bit 8 (ucast e) :: uint16_t) \<Longrightarrow> d = e"
  for d e :: uint8_t
proof (rule bit_word_eqI)
  fix n assume eq: "push_bit 8 (ucast d) = (push_bit 8 (ucast e) :: uint16_t)" and n: "n < LENGTH(8)"
  have "bit (push_bit 8 (ucast d) :: uint16_t) (n + 8) = bit d n"
       "bit (push_bit 8 (ucast e) :: uint16_t) (n + 8) = bit e n"
    using n by (simp_all add: bit_push_bit_iff bit_ucast_iff)
  with eq show "bit d n = bit e n" by simp
qed

lemma step_inj_byte: "crc16_step c d = crc16_step c e \<Longrightarrow> d = e"
  by (auto simp add: step_bitwise dest!: shift_pow_inj xor_cancel_left push8_ucast_inj)

lemma loop_inj: "crc16_loop a ds = crc16_loop b ds \<Longrightarrow> a = b"
  by (induction ds arbitrary: a b) (auto dest: step_inj_state)

lemma loop_append: "crc16_loop c (xs @ ys) = crc16_loop (crc16_loop c xs) ys"
  by (induction xs arbitrary: c) simp_all

lemma loop_update:
  assumes "i < length xs" and "b \<noteq> xs ! i"
  shows "crc16_loop c (xs[i := b]) \<noteq> crc16_loop c xs"
proof
  assume eq: "crc16_loop c (xs[i := b]) = crc16_loop c xs"
  have xs: "xs = take i xs @ xs ! i # drop (Suc i) xs"
    using assms(1) by (rule id_take_nth_drop)
  have upd: "xs[i := b] = take i xs @ b # drop (Suc i) xs"
    using assms(1) by (rule upd_conv_take_nth_drop)
  from eq have "crc16_loop c (take i xs @ b # drop (Suc i) xs) =
                crc16_loop c (take i xs @ xs ! i # drop (Suc i) xs)"
    using xs upd by simp
  then have "crc16_step (crc16_loop c (take i xs)) b = crc16_step (crc16_loop c (take i xs)) (xs ! i)"
    by (auto simp add: loop_append dest: loop_inj)
  then have "b = xs ! i" by (rule step_inj_byte)
  with assms(2) show False by simp
qed


section \<open>Properties of the frame layout\<close>

lemma length_le16 [simp]: "length (le16 w) = 2"
  by (simp add: le16_def)

lemma length_concat_le16 [simp]: "length (concat (map le16 xs)) = 2 * length xs"
  by (induction xs) simp_all

lemma le16_read_le16: "le16 (le16_read bs off) = [bs ! off, bs ! (off + 1)]"
proof -
  have a: "ucast (le16_read bs off) = bs ! off"
    unfolding le16_read_def
    by (rule bit_word_eqI) (auto simp add: bit_ucast_iff bit_or_iff bit_push_bit_iff)
  have b: "ucast (drop_bit 8 (le16_read bs off)) = bs ! (off + 1)"
    unfolding le16_read_def
    by (rule bit_word_eqI) (auto simp add: bit_ucast_iff bit_or_iff bit_push_bit_iff bit_drop_bit_eq dest: bit_imp_le_length)
  show ?thesis by (simp add: le16_def a b)
qed

lemma le16_read_append_le16:
  "length xs = off \<Longrightarrow> le16_read (xs @ le16 w @ ys) off = w"
  unfolding le16_read_def le16_def
  apply (simp add: nth_append)
  apply (rule bit_word_eqI)
  apply (auto simp add: bit_ucast_iff bit_or_iff bit_push_bit_iff bit_drop_bit_eq)
  done

lemma frame_bytes_length: "frame_wf f \<Longrightarrow> length (frame_bytes f) = FRAME_TOTAL_SIZE"
  by (simp add: frame_wf_def frame_bytes_def FRAME_TOTAL_SIZE_def FRAME_HEADER_SIZE_def
      FRAME_PIXEL_SIZE_def FRAME_FOOTER_SIZE_def)

lemma frame_bytes_start: "frame_wf f \<Longrightarrow> take 4 (frame_bytes f) = start_marker f"
  by (simp add: frame_wf_def frame_bytes_def)

lemma frame_bytes_end:
  "frame_wf f \<Longrightarrow> take 4 (drop (FRAME_HEADER_SIZE + FRAME_PIXEL_SIZE) (frame_bytes f)) = end_marker f"
  by (simp add: frame_wf_def frame_bytes_def FRAME_HEADER_SIZE_def FRAME_PIXEL_SIZE_def)

lemma frame_bytes_pixel_count: "frame_wf f \<Longrightarrow> le16_read (frame_bytes f) 6 = pixel_count f"
proof -
  assume wf: "frame_wf f"
  have "frame_bytes f = (start_marker f @ le16 (frame_counter f)) @ le16 (pixel_count f) @
     (concat (map le16 (pixel_data f)) @ end_marker f @ le16 (checksum f))"
    by (simp add: frame_bytes_def)
  moreover have "length (start_marker f @ le16 (frame_counter f)) = 6"
    using wf by (simp add: frame_wf_def)
  ultimately show ?thesis by (simp only: le16_read_append_le16)
qed

lemma frame_bytes_checksum:
  "frame_wf f \<Longrightarrow> le16_read (frame_bytes f) (FRAME_HEADER_SIZE + FRAME_PIXEL_SIZE + 4) = checksum f"
proof -
  assume wf: "frame_wf f"
  have "frame_bytes f = (start_marker f @ le16 (frame_counter f) @ le16 (pixel_count f) @
     concat (map le16 (pixel_data f)) @ end_marker f) @ le16 (checksum f) @ []"
    by (simp add: frame_bytes_def)
  moreover have "length (start_marker f @ le16 (frame_counter f) @ le16 (pixel_count f) @
     concat (map le16 (pixel_data f)) @ end_marker f) = FRAME_HEADER_SIZE + FRAME_PIXEL_SIZE + 4"
    using wf by (simp add: frame_wf_def FRAME_HEADER_SIZE_def FRAME_PIXEL_SIZE_def)
  ultimately show ?thesis by (simp only: le16_read_append_le16)
qed

lemma frame_bytes_body:
  "frame_wf f \<Longrightarrow> take (FRAME_TOTAL_SIZE - 2) (frame_bytes f) =
     start_marker f @ le16 (frame_counter f) @ le16 (pixel_count f) @
     concat (map le16 (pixel_data f)) @ end_marker f"
  by (simp add: frame_wf_def frame_bytes_def FRAME_TOTAL_SIZE_def FRAME_HEADER_SIZE_def
      FRAME_PIXEL_SIZE_def FRAME_FOOTER_SIZE_def)

lemma concat_le16_read:
  "off + 2 * n \<le> length bs \<Longrightarrow>
   concat (map le16 (map (\<lambda>i. le16_read bs (off + 2 * i)) [0..<n])) = take (2 * n) (drop off bs)"
proof (induction n)
  case 0
  show ?case by simp
next
  case (Suc n)
  then have len: "2 * n + 1 < length (drop off bs)" by simp
  have "take (2 * Suc n) (drop off bs) = take (Suc (Suc (2 * n))) (drop off bs)" by simp
  also have "\<dots> = take (2 * n) (drop off bs) @ [drop off bs ! (2 * n), drop off bs ! (2 * n + 1)]"
    using len by (simp add: take_Suc_conv_app_nth)
  also have "\<dots> = take (2 * n) (drop off bs) @ [bs ! (off + 2 * n), bs ! (off + 2 * n + 1)]"
    using Suc.prems by (simp add: add.assoc)
  finally show ?case
    using Suc by (simp add: le16_read_le16)
qed

lemma drop_split: "drop n xs = take k (drop n xs) @ drop (n + k) xs"
  by (metis append_take_drop_id drop_drop add.commute)

lemma take2_drop: "n + 1 < length xs \<Longrightarrow> take 2 (drop n xs) = [xs ! n, xs ! (n + 1)]"
proof -
  assume "n + 1 < length xs"
  then have "take (Suc (Suc 0)) (drop n xs) = [xs ! n, xs ! (n + 1)]"
    by (simp add: take_Suc_conv_app_nth)
  then show ?thesis by (simp add: numeral_2_eq_2)
qed

lemma bytes_split:
  assumes len: "length bs = 7402"
  shows "bs = take 4 bs @ [bs ! 4, bs ! 5] @ [bs ! 6, bs ! 7] @
     take 7388 (drop 8 bs) @ take 4 (drop 7396 bs) @ [bs ! 7400, bs ! 7401]"
proof -
  have "bs = take 4 bs @ drop 4 bs" by simp
  also have "drop 4 bs = [bs ! 4, bs ! 5] @ drop 6 bs"
    using drop_split [of 4 bs 2] take2_drop [of 4 bs] len by simp
  also have "drop 6 bs = [bs ! 6, bs ! 7] @ drop 8 bs"
    using drop_split [of 6 bs 2] take2_drop [of 6 bs] len by simp
  also have "drop 8 bs = take 7388 (drop 8 bs) @ drop 7396 bs"
    using drop_split [of 8 bs 7388] by simp
  also have "drop 7396 bs = take 4 (drop 7396 bs) @ drop 7400 bs"
    using drop_split [of 7396 bs 4] by simp
  also have "drop 7400 bs = [bs ! 7400, bs ! 7401]"
    using drop_split [of 7400 bs 2] take2_drop [of 7400 bs] len by simp
  finally show ?thesis .
qed

lemma frame_bytes_bytes_frame:
  assumes len: "length bs = FRAME_TOTAL_SIZE"
  shows "frame_bytes (bytes_frame bs) = bs"
proof -
  have n: "length bs = 7402"
    using len by (simp add: FRAME_TOTAL_SIZE_def FRAME_HEADER_SIZE_def
      FRAME_PIXEL_SIZE_def FRAME_FOOTER_SIZE_def CCD_PIXEL_COUNT_def)
  have px: "concat (map le16 (map (\<lambda>i. le16_read bs (FRAME_HEADER_SIZE + 2 * i)) [0..<CCD_PIXEL_COUNT]))
      = take (2 * CCD_PIXEL_COUNT) (drop FRAME_HEADER_SIZE bs)"
    by (rule concat_le16_read) (simp add: n FRAME_HEADER_SIZE_def CCD_PIXEL_COUNT_def)
  have "frame_bytes (bytes_frame bs) =
     take 4 bs @ [bs ! 4, bs ! 5] @ [bs ! 6, bs ! 7] @
     take 7388 (drop 8 bs) @ take 4 (drop 7396 bs) @ [bs ! 7400, bs ! 7401]"
    unfolding frame_bytes_def bytes_frame_def
    apply (simp only: CCD_Frame_t.simps px le16_read_le16)
    apply (simp add: FRAME_HEADER_SIZE_def FRAME_PIXEL_SIZE_def CCD_PIXEL_COUNT_def)
    done
  then show ?thesis using bytes_split [OF n] by simp
qed


lemma crc16_loop_bitwise: "crc16_loop c ds = crc16_ccitt_bitwise c ds"
  by (induction ds arbitrary: c) (simp_all add: step_bitwise crc16_ccitt_byte_def)

lemma total_size: "FRAME_TOTAL_SIZE = 7402" "FRAME_HEADER_SIZE + FRAME_PIXEL_SIZE = 7396"
  "FRAME_HEADER_SIZE + FRAME_PIXEL_SIZE + 4 = 7400" "FRAME_TOTAL_SIZE - 2 = 7400"
  by (simp_all add: FRAME_TOTAL_SIZE_def FRAME_HEADER_SIZE_def FRAME_PIXEL_SIZE_def
      FRAME_FOOTER_SIZE_def CCD_PIXEL_COUNT_def)

lemma frame_bytes_body_checksum:
  "frame_wf f \<Longrightarrow>
   take (FRAME_TOTAL_SIZE - 2) (frame_bytes (f\<lparr>checksum := c\<rparr>)) =
   take (FRAME_TOTAL_SIZE - 2) (frame_bytes f)"
proof -
  assume wf: "frame_wf f"
  then have "frame_wf (f\<lparr>checksum := c\<rparr>)" by (simp add: frame_wf_def)
  from frame_bytes_body [OF this] frame_bytes_body [OF wf] show ?thesis by simp
qed

lemma process_readout_built:
  assumes "initialized s"
  shows "\<exists>f. ccd_data_layer_process_readout s (Some adc) (Some f0) =
           (CCD_FRAME_OK, Some f, s\<lparr>frame_counter_var := frame_counter_var s + 1\<rparr>) \<and>
         frame_wf f \<and> start_marker f = FRAME_START_MARKER \<and> end_marker f = FRAME_END_MARKER \<and>
         frame_counter f = frame_counter_var s \<and> pixel_count f = of_nat CCD_PIXEL_COUNT \<and>
         pixel_data f = map (\<lambda>i. adc ! i) [0..<CCD_PIXEL_COUNT] \<and>
         checksum f = ccd_data_layer_calculate_crc16 (frame_bytes f) (FRAME_TOTAL_SIZE - 2)"
proof -
  let ?f3 = "f0\<lparr>start_marker := FRAME_START_MARKER, frame_counter := frame_counter_var s,
      pixel_count := of_nat CCD_PIXEL_COUNT,
      pixel_data := map (\<lambda>i. adc ! i) [0..<CCD_PIXEL_COUNT],
      end_marker := FRAME_END_MARKER\<rparr>"
  let ?c = "ccd_data_layer_calculate_crc16 (frame_bytes ?f3) (FRAME_TOTAL_SIZE - 2)"
  let ?f = "?f3\<lparr>checksum := ?c\<rparr>"
  have wf3: "frame_wf ?f3"
    by (simp add: frame_wf_def FRAME_START_MARKER_def FRAME_END_MARKER_def)
  have wf: "frame_wf ?f"
    by (simp add: frame_wf_def FRAME_START_MARKER_def FRAME_END_MARKER_def)
  have run: "ccd_data_layer_process_readout s (Some adc) (Some f0) =
      (CCD_FRAME_OK, Some ?f, s\<lparr>frame_counter_var := frame_counter_var s + 1\<rparr>)"
    using assms by (simp add: ccd_data_layer_process_readout_def Let_def)
  have "ccd_data_layer_calculate_crc16 (frame_bytes ?f) (FRAME_TOTAL_SIZE - 2) = ?c"
    unfolding ccd_data_layer_calculate_crc16_def
    by (simp only: frame_bytes_body_checksum [OF wf3])
  then have ck: "checksum ?f = ccd_data_layer_calculate_crc16 (frame_bytes ?f) (FRAME_TOTAL_SIZE - 2)"
    by simp
  show ?thesis
    apply (rule exI [of _ ?f])
    apply (intro conjI)
           apply (rule run)
          apply (rule wf)
         apply simp
        apply simp
       apply simp
      apply simp
     apply simp
    apply (rule ck)
    done
qed

lemma validate_bytes:
  assumes "length bs = FRAME_TOTAL_SIZE"
  shows "ccd_data_layer_validate_frame (Some (bytes_frame bs)) =
     (if take 4 bs \<noteq> FRAME_START_MARKER then CCD_FRAME_ERROR_INVALID_DATA
      else if take 4 (drop 7396 bs) \<noteq> FRAME_END_MARKER then CCD_FRAME_ERROR_INVALID_DATA
      else if le16_read bs 6 \<noteq> of_nat CCD_PIXEL_COUNT then CCD_FRAME_ERROR_SIZE
      else if crc16_loop 0xFFFF (take 7400 bs) \<noteq> le16_read bs 7400
        then CCD_FRAME_ERROR_CHECKSUM
      else CCD_FRAME_OK)"
proof -
  have m: "take 4 FRAME_START_MARKER = FRAME_START_MARKER" "take 4 FRAME_END_MARKER = FRAME_END_MARKER"
    by (simp_all add: FRAME_START_MARKER_def FRAME_END_MARKER_def)
  have f: "start_marker (bytes_frame bs) = take 4 bs"
    "end_marker (bytes_frame bs) = take 4 (drop 7396 bs)"
    "pixel_count (bytes_frame bs) = le16_read bs 6"
    "checksum (bytes_frame bs) = le16_read bs 7400"
    by (simp_all add: bytes_frame_def total_size)
  show ?thesis
    unfolding ccd_data_layer_validate_frame_def ccd_data_layer_calculate_crc16_def
    by (simp only: option.case f frame_bytes_bytes_frame [OF assms] m total_size(4) Let_def
        take_take min.idem)
qed

lemma built_bytes:
  assumes "initialized s"
    and "ccd_data_layer_process_readout s (Some adc) (Some f0) = (status, Some f, s')"
  shows "length (frame_bytes f) = 7402"
    and "take 4 (frame_bytes f) = FRAME_START_MARKER"
    and "take 4 (drop 7396 (frame_bytes f)) = FRAME_END_MARKER"
    and "le16_read (frame_bytes f) 6 = of_nat CCD_PIXEL_COUNT"
    and "le16_read (frame_bytes f) 7400 = crc16_loop 0xFFFF (take 7400 (frame_bytes f))"
proof -
  from process_readout_built [OF assms(1), of adc f0] assms(2) have
    wf: "frame_wf f" and sm: "start_marker f = FRAME_START_MARKER"
    and em: "end_marker f = FRAME_END_MARKER" and pc: "pixel_count f = of_nat CCD_PIXEL_COUNT"
    and ck: "checksum f = ccd_data_layer_calculate_crc16 (frame_bytes f) (FRAME_TOTAL_SIZE - 2)"
    by auto
  show "length (frame_bytes f) = 7402"
    using frame_bytes_length [OF wf] by (simp only: total_size)
  show "take 4 (frame_bytes f) = FRAME_START_MARKER"
    using frame_bytes_start [OF wf] sm by simp
  show "take 4 (drop 7396 (frame_bytes f)) = FRAME_END_MARKER"
    using frame_bytes_end [OF wf] em by (simp only: total_size)
  show "le16_read (frame_bytes f) 6 = of_nat CCD_PIXEL_COUNT"
    using frame_bytes_pixel_count [OF wf] pc by simp
  show "le16_read (frame_bytes f) 7400 = crc16_loop 0xFFFF (take 7400 (frame_bytes f))"
    using frame_bytes_checksum [OF wf] ck
    by (simp only: total_size(3,4) ccd_data_layer_calculate_crc16_def)
qed

lemma update_neq: "i < length xs \<Longrightarrow> b \<noteq> xs ! i \<Longrightarrow> xs[i := b] \<noteq> xs"
  by (metis nth_list_update_eq)

lemma le16_read_update_other:
  "i \<noteq> off \<Longrightarrow> i \<noteq> off + 1 \<Longrightarrow> le16_read (bs[i := b]) off = le16_read bs off"
  by (simp add: le16_read_def)

lemma le16_read_update_hit:
  assumes "i = off \<or> i = off + 1" and "i < length bs" and "b \<noteq> bs ! i"
  shows "le16_read (bs[i := b]) off \<noteq> le16_read bs off"
proof
  assume "le16_read (bs[i := b]) off = le16_read bs off"
  then have "le16 (le16_read (bs[i := b]) off) = le16 (le16_read bs off)" by simp
  then have "[bs[i := b] ! off, bs[i := b] ! (off + 1)] = [bs ! off, bs ! (off + 1)]"
    by (simp only: le16_read_le16)
  with assms show False by auto
qed


lemma corrupted_bytes:
  assumes len: "length bs = 7402"
    and sm: "take 4 bs = FRAME_START_MARKER"
    and em: "take 4 (drop 7396 bs) = FRAME_END_MARKER"
    and pc: "le16_read bs 6 = of_nat CCD_PIXEL_COUNT"
    and ck: "le16_read bs 7400 = crc16_loop 0xFFFF (take 7400 bs)"
    and i: "i < 7402" and b: "b \<noteq> bs ! i"
  shows "ccd_data_layer_validate_frame (Some (bytes_frame (bs[i := b]))) =
     (if i < 4 \<or> (7396 \<le> i \<and> i < 7400) then CCD_FRAME_ERROR_INVALID_DATA
      else if i = 6 \<or> i = 7 then CCD_FRAME_ERROR_SIZE
      else CCD_FRAME_ERROR_CHECKSUM)"
proof -
  let ?bs' = "bs[i := b]"
  have len': "length ?bs' = FRAME_TOTAL_SIZE" using len by (simp add: total_size)
  note v = validate_bytes [OF len']
  consider (start) "i < 4" | (cnt) "i = 4 \<or> i = 5" | (pcnt) "i = 6 \<or> i = 7"
    | (px) "8 \<le> i \<and> i < 7396" | (endm) "7396 \<le> i \<and> i < 7400" | (sum) "i = 7400 \<or> i = 7401"
    using i by arith
  then show ?thesis
  proof cases
    case start
    have "take 4 ?bs' = (take 4 bs)[i := b]" by (simp add: take_update_swap)
    moreover have "(take 4 bs)[i := b] \<noteq> take 4 bs"
      using start len b by (intro update_neq) simp_all
    ultimately have "take 4 ?bs' \<noteq> FRAME_START_MARKER" using sm by simp
    with start show ?thesis by (simp add: v)
  next
    case endm
    have s': "take 4 ?bs' = FRAME_START_MARKER"
      using endm sm by (simp add: take_update_cancel)
    have "take 4 (drop 7396 ?bs') = (take 4 (drop 7396 bs))[i - 7396 := b]"
      using endm by (simp add: drop_update_swap take_update_swap)
    moreover have "(take 4 (drop 7396 bs))[i - 7396 := b] \<noteq> take 4 (drop 7396 bs)"
    proof (rule update_neq)
      have k: "i - 7396 < 4" using endm by arith
      then show "i - 7396 < length (take 4 (drop 7396 bs))" using len by simp
      have "7396 + (i - 7396) = i" using endm by arith
      then have "take 4 (drop 7396 bs) ! (i - 7396) = bs ! i" using k len by simp
      then show "b \<noteq> take 4 (drop 7396 bs) ! (i - 7396)" using b by simp
    qed
    ultimately have "take 4 (drop 7396 ?bs') \<noteq> FRAME_END_MARKER" using em by simp
    with endm s' show ?thesis by (simp add: v)
  next
    case pcnt
    have s': "take 4 ?bs' = FRAME_START_MARKER"
      using pcnt sm by (auto simp add: take_update_cancel)
    have e': "take 4 (drop 7396 ?bs') = FRAME_END_MARKER"
      using pcnt em by (auto simp add: drop_update_cancel)
    have "le16_read ?bs' 6 \<noteq> le16_read bs 6"
      using pcnt len b by (intro le16_read_update_hit) auto
    then have "le16_read ?bs' 6 \<noteq> of_nat CCD_PIXEL_COUNT" using pc by simp
    with pcnt s' e' show ?thesis by (auto simp add: v)
  next
    case cnt
    have s': "take 4 ?bs' = FRAME_START_MARKER"
      using cnt sm by (auto simp add: take_update_cancel)
    have e': "take 4 (drop 7396 ?bs') = FRAME_END_MARKER"
      using cnt em by (auto simp add: drop_update_cancel)
    have p': "le16_read ?bs' 6 = of_nat CCD_PIXEL_COUNT"
      using cnt pc by (auto simp add: le16_read_update_other)
    have k': "le16_read ?bs' 7400 = crc16_loop 0xFFFF (take 7400 bs)"
      using cnt ck by (auto simp add: le16_read_update_other)
    have "take 7400 ?bs' = (take 7400 bs)[i := b]" by (simp add: take_update_swap)
    moreover have "crc16_loop 0xFFFF ((take 7400 bs)[i := b]) \<noteq> crc16_loop 0xFFFF (take 7400 bs)"
      using cnt len b by (intro loop_update) auto
    ultimately have "crc16_loop 0xFFFF (take 7400 ?bs') \<noteq> le16_read ?bs' 7400"
      using k' by simp
    with cnt s' e' p' show ?thesis by (auto simp add: v)
  next
    case px
    have s': "take 4 ?bs' = FRAME_START_MARKER"
      using px sm by (simp add: take_update_cancel)
    have e': "take 4 (drop 7396 ?bs') = FRAME_END_MARKER"
      using px em by (simp add: drop_update_cancel)
    have p': "le16_read ?bs' 6 = of_nat CCD_PIXEL_COUNT"
      using px pc by (simp add: le16_read_update_other)
    have k': "le16_read ?bs' 7400 = crc16_loop 0xFFFF (take 7400 bs)"
      using px ck by (simp add: le16_read_update_other)
    have "take 7400 ?bs' = (take 7400 bs)[i := b]" by (simp add: take_update_swap)
    moreover have "crc16_loop 0xFFFF ((take 7400 bs)[i := b]) \<noteq> crc16_loop 0xFFFF (take 7400 bs)"
      using px len b by (intro loop_update) simp_all
    ultimately have "crc16_loop 0xFFFF (take 7400 ?bs') \<noteq> le16_read ?bs' 7400"
      using k' by simp
    with px s' e' p' show ?thesis by (simp add: v)
  next
    case sum
    have s': "take 4 ?bs' = FRAME_START_MARKER"
      using sum sm by (auto simp add: take_update_cancel)
    have e': "take 4 (drop 7396 ?bs') = FRAME_END_MARKER"
      using sum em by (auto simp add: drop_update_swap take_update_cancel)
    have p': "le16_read ?bs' 6 = of_nat CCD_PIXEL_COUNT"
      using sum pc by (auto simp add: le16_read_update_other)
    have t': "take 7400 ?bs' = take 7400 bs"
      using sum by (auto simp add: take_update_cancel)
    have "le16_read ?bs' 7400 \<noteq> le16_read bs 7400"
      using sum len b by (intro le16_read_update_hit) auto
    then have "crc16_loop 0xFFFF (take 7400 ?bs') \<noteq> le16_read ?bs' 7400"
      using ck t' by simp
    with sum s' e' p' show ?thesis by (auto simp add: v)
  qed
qed


lemma frame_bytes_nth_header:
  assumes "frame_wf f"
  shows "frame_bytes f ! 4 = ucast (frame_counter f)"
    and "frame_bytes f ! 6 = ucast (pixel_count f)"
  using assms by (simp_all add: frame_wf_def frame_bytes_def nth_append le16_def)

lemma bad_marker_invalid:
  "take 4 (start_marker f) \<noteq> take 4 FRAME_START_MARKER \<or>
   take 4 (end_marker f) \<noteq> take 4 FRAME_END_MARKER \<Longrightarrow>
   ccd_data_layer_validate_frame (Some (f\<lparr>checksum := c\<rparr>)) = CCD_FRAME_ERROR_INVALID_DATA"
  by (auto simp add: ccd_data_layer_validate_frame_def)

section \<open>Properties of the ring buffer\<close>

lemma unat_next_index: "sz \<noteq> 0 \<Longrightarrow> unat (next_index i sz) = (unat i + 1) mod unat sz"
proof -
  assume "sz \<noteq> 0"
  then have "0 < unat sz" by (simp add: unat_gt_0)
  then have "(unat i + 1) mod unat sz < unat sz" by simp
  also have "unat sz < 2 ^ 16" using unsigned_less [of sz, where ?'a = nat] by simp
  finally show ?thesis by (simp add: next_index_def unat_of_nat)
qed

lemma next_index_less: "sz \<noteq> 0 \<Longrightarrow> next_index i sz < sz"
  by (simp add: word_less_nat_alt unat_next_index unat_gt_0)

lemma rb_inv_init: "sz \<noteq> 0 \<Longrightarrow> rb_inv (ring_buffer_init storage sz)"
  by (simp add: rb_inv_def ring_buffer_init_def word_gt_0)

lemma rb_inv_write: "rb_inv rb \<Longrightarrow> rb_inv (snd (ring_buffer_write rb d))"
  by (simp add: rb_inv_def ring_buffer_write_def Let_def next_index_less)

lemma rb_inv_read: "rb_inv rb \<Longrightarrow> rb_inv (snd (ring_buffer_read rb))"
  by (simp add: rb_inv_def ring_buffer_read_def next_index_less)

lemma rb_inv_clear: "rb_inv rb \<Longrightarrow> rb_inv (ring_buffer_clear rb)"
  by (simp add: rb_inv_def ring_buffer_clear_def word_gt_0)

lemma size_clear [simp]: "size_rb (ring_buffer_clear rb) = size_rb rb"
  by (simp add: ring_buffer_clear_def)

lemma size_write [simp]: "size_rb (snd (ring_buffer_write rb d)) = size_rb rb"
  by (simp add: ring_buffer_write_def Let_def)

lemma size_read [simp]: "size_rb (snd (ring_buffer_read rb)) = size_rb rb"
  by (simp add: ring_buffer_read_def)

lemma write_loop_inv:
  "rb_inv rb \<Longrightarrow> rb_inv (snd (write_multiple_loop rb ds w)) \<and>
     size_rb (snd (write_multiple_loop rb ds w)) = size_rb rb"
proof (induction ds arbitrary: rb w)
  case Nil
  then show ?case by simp
next
  case (Cons d ds)
  obtain ok rb' where w: "ring_buffer_write rb d = (ok, rb')" by (cases "ring_buffer_write rb d")
  with Cons.prems have "rb_inv rb'" "size_rb rb' = size_rb rb"
    using rb_inv_write [of rb d] size_write [of rb d] by simp_all
  with Cons.IH [of rb'] w Cons.prems show ?case by (cases ok) simp_all
qed

lemma read_loop_inv:
  "rb_inv rb \<Longrightarrow> rb_inv (snd (read_multiple_loop rb n)) \<and>
     size_rb (snd (read_multiple_loop rb n)) = size_rb rb"
proof (induction n arbitrary: rb)
  case 0
  then show ?case by simp
next
  case (Suc n)
  obtain r rb' where w: "ring_buffer_read rb = (r, rb')" by (cases "ring_buffer_read rb")
  with Suc.prems have "rb_inv rb'" "size_rb rb' = size_rb rb"
    using rb_inv_read [of rb] size_read [of rb] by simp_all
  with Suc.IH [of rb'] w Suc.prems show ?case
    by (cases r) (simp_all add: split_beta)
qed

lemma rb_apply_inv:
  "rb_inv rb \<Longrightarrow> rb_inv (rb_apply rb op) \<and> size_rb (rb_apply rb op) = size_rb rb"
  by (cases op)
    (simp_all add: rb_inv_write rb_inv_read rb_inv_clear write_loop_inv read_loop_inv
      ring_buffer_write_multiple_def ring_buffer_read_multiple_def split_beta Let_def)

lemma rb_run_inv:
  "rb_inv rb \<Longrightarrow> rb_inv (rb_run rb ops) \<and> size_rb (rb_run rb ops) = size_rb rb"
  unfolding rb_run_def
  by (induction ops arbitrary: rb) (simp_all add: rb_apply_inv)

lemma unat_available:
  assumes "rb_inv rb"
  shows "unat (ring_buffer_available rb) =
    (if unat (tail rb) \<le> unat (head rb) then unat (head rb) - unat (tail rb)
     else unat (size_rb rb) - unat (tail rb) + unat (head rb))"
proof -
  have b: "unat (size_rb rb) < 65536"
    using unsigned_less [of "size_rb rb", where ?'a = nat] by simp
  from assms have h: "unat (head rb) < unat (size_rb rb)" and t: "unat (tail rb) < unat (size_rb rb)"
    by (simp_all add: rb_inv_def word_less_nat_alt)
  show ?thesis
  proof (cases "unat (tail rb) \<le> unat (head rb)")
    case True
    then show ?thesis
      by (simp add: ring_buffer_available_def word_le_nat_alt unat_sub)
  next
    case False
    then have lt: "unat (head rb) < unat (tail rb)" by simp
    have "unat (size_rb rb - tail rb) = unat (size_rb rb) - unat (tail rb)"
      using t by (simp add: unat_sub word_le_nat_alt)
    moreover have "unat (size_rb rb) - unat (tail rb) + unat (head rb) < 65536"
      using b h t lt by arith
    ultimately have "unat (size_rb rb - tail rb + head rb) =
        unat (size_rb rb) - unat (tail rb) + unat (head rb)"
      by (simp add: unat_word_ariths)
    with False show ?thesis
      by (simp add: ring_buffer_available_def word_le_nat_alt)
  qed
qed

lemma available_less:
  assumes "rb_inv rb"
  shows "unat (ring_buffer_available rb) < unat (size_rb rb)"
proof -
  from assms have "unat (head rb) < unat (size_rb rb)" "unat (tail rb) < unat (size_rb rb)"
    by (simp_all add: rb_inv_def word_less_nat_alt)
  then show ?thesis unfolding unat_available [OF assms] by arith
qed

lemma unat_free_space:
  assumes "rb_inv rb"
  shows "unat (ring_buffer_free_space rb) = unat (size_rb rb) - unat (ring_buffer_available rb) - 1"
proof -
  have a: "unat (ring_buffer_available rb) < unat (size_rb rb)"
    using assms by (rule available_less)
  then have "unat (size_rb rb - ring_buffer_available rb) =
      unat (size_rb rb) - unat (ring_buffer_available rb)"
    by (simp add: unat_sub word_le_nat_alt)
  moreover from a have "1 \<le> size_rb rb - ring_buffer_available rb"
    by (simp add: word_le_nat_alt unat_sub)
  ultimately show ?thesis
    by (simp add: ring_buffer_free_space_def unat_sub)
qed

lemma space_of_inv:
  assumes "rb_inv rb"
  shows "unat (ring_buffer_free_space rb) + unat (ring_buffer_available rb) = unat (size_rb rb) - 1
     \<and> unat (ring_buffer_available rb) \<le> unat (size_rb rb) - 1
     \<and> unat (ring_buffer_free_space rb) \<le> unat (size_rb rb) - 1"
  using available_less [OF assms] unat_free_space [OF assms] by arith

lemma succ_mod: "i < N \<Longrightarrow> (i + 1) mod N = (if i + 1 = N then 0 else i + 1)" for i N :: nat
  by auto

lemma inv_nat:
  "rb_inv rb \<Longrightarrow> unat (head rb) < unat (size_rb rb) \<and> unat (tail rb) < unat (size_rb rb)"
  by (simp add: rb_inv_def word_less_nat_alt)

lemma head_position:
  assumes "rb_inv rb"
  shows "(unat (tail rb) + unat (ring_buffer_available rb)) mod unat (size_rb rb) = unat (head rb)"
proof -
  from inv_nat [OF assms] show ?thesis
    unfolding unat_available [OF assms] by (auto simp add: le_mod_geq)
qed

lemma nat_write_ne:
  fixes h t N :: nat
  assumes "h < N" "t < N" "(if t \<le> h then h - t else N - t + h) + 1 < N"
  shows "(h + 1) mod N \<noteq> t"
proof -
  have "(h + 1) mod N = (if h + 1 = N then 0 else h + 1)"
    using assms(1) by (rule succ_mod)
  with assms show ?thesis by (auto split: if_splits)
qed

lemma nat_write_avail:
  fixes h t N :: nat
  assumes "h < N" "t < N" "(if t \<le> h then h - t else N - t + h) + 1 < N"
  shows "(if t \<le> (h + 1) mod N then (h + 1) mod N - t else N - t + (h + 1) mod N) =
         (if t \<le> h then h - t else N - t + h) + 1"
proof -
  have "(h + 1) mod N = (if h + 1 = N then 0 else h + 1)"
    using assms(1) by (rule succ_mod)
  with assms show ?thesis by (auto split: if_splits)
qed

lemma nat_read_avail:
  fixes h t N :: nat
  assumes "h < N" "t < N" "h \<noteq> t"
  shows "(if (t + 1) mod N \<le> h then h - (t + 1) mod N else N - (t + 1) mod N + h) =
         (if t \<le> h then h - t else N - t + h) - 1"
proof -
  have "(t + 1) mod N = (if t + 1 = N then 0 else t + 1)"
    using assms(2) by (rule succ_mod)
  with assms show ?thesis by (auto split: if_splits)
qed

lemma write_fst:
  assumes inv: "rb_inv rb" and space: "unat (ring_buffer_available rb) + 1 < unat (size_rb rb)"
  shows "next_index (head rb) (size_rb rb) \<noteq> tail rb"
proof
  assume "next_index (head rb) (size_rb rb) = tail rb"
  then have "unat (next_index (head rb) (size_rb rb)) = unat (tail rb)" by simp
  moreover have "size_rb rb \<noteq> 0" using inv by (simp add: rb_inv_def)
  ultimately have "(unat (head rb) + 1) mod unat (size_rb rb) = unat (tail rb)"
    using unat_next_index [of "size_rb rb" "head rb"] by simp
  moreover have "(unat (head rb) + 1) mod unat (size_rb rb) \<noteq> unat (tail rb)"
    using inv_nat [OF inv] space unfolding unat_available [OF inv]
    by (intro nat_write_ne) simp_all
  ultimately show False by simp
qed

lemma write_head:
  assumes inv: "rb_inv rb" and space: "unat (ring_buffer_available rb) + 1 < unat (size_rb rb)"
  shows "unat (head (snd (ring_buffer_write rb d))) = (unat (head rb) + 1) mod unat (size_rb rb)"
    and "tail (snd (ring_buffer_write rb d)) = tail rb"
    and "buffer (snd (ring_buffer_write rb d)) = (buffer rb)[unat (head rb) := d]"
    and "fst (ring_buffer_write rb d)"
proof -
  have nz: "size_rb rb \<noteq> 0" using inv by (simp add: rb_inv_def)
  show "unat (head (snd (ring_buffer_write rb d))) = (unat (head rb) + 1) mod unat (size_rb rb)"
    using write_fst [OF inv space] unat_next_index [OF nz, of "head rb"]
    by (simp add: ring_buffer_write_def Let_def)
  show "tail (snd (ring_buffer_write rb d)) = tail rb"
    by (simp add: ring_buffer_write_def Let_def)
  show "buffer (snd (ring_buffer_write rb d)) = (buffer rb)[unat (head rb) := d]"
    using write_fst [OF inv space] by (simp add: ring_buffer_write_def Let_def)
  show "fst (ring_buffer_write rb d)"
    using write_fst [OF inv space] by (simp add: ring_buffer_write_def Let_def)
qed

lemma write_avail:
  assumes inv: "rb_inv rb" and space: "unat (ring_buffer_available rb) + 1 < unat (size_rb rb)"
  shows "unat (ring_buffer_available (snd (ring_buffer_write rb d))) =
         unat (ring_buffer_available rb) + 1"
proof -
  let ?rb' = "snd (ring_buffer_write rb d)"
  have inv': "rb_inv ?rb'" using inv by (rule rb_inv_write)
  show ?thesis
    using inv_nat [OF inv] space
    unfolding unat_available [OF inv'] unat_available [OF inv] write_head [OF inv space] size_write
    by (intro nat_write_avail) simp_all
qed

lemma read_tail:
  assumes inv: "rb_inv rb" and ne: "head rb \<noteq> tail rb"
  shows "unat (tail (snd (ring_buffer_read rb))) = (unat (tail rb) + 1) mod unat (size_rb rb)"
    and "head (snd (ring_buffer_read rb)) = head rb"
    and "buffer (snd (ring_buffer_read rb)) = buffer rb"
    and "fst (ring_buffer_read rb) = Some (buffer rb ! unat (tail rb))"
proof -
  have nz: "size_rb rb \<noteq> 0" using inv by (simp add: rb_inv_def)
  show "unat (tail (snd (ring_buffer_read rb))) = (unat (tail rb) + 1) mod unat (size_rb rb)"
    using ne unat_next_index [OF nz, of "tail rb"] by (simp add: ring_buffer_read_def)
  show "head (snd (ring_buffer_read rb)) = head rb"
    by (simp add: ring_buffer_read_def)
  show "buffer (snd (ring_buffer_read rb)) = buffer rb"
    by (simp add: ring_buffer_read_def)
  show "fst (ring_buffer_read rb) = Some (buffer rb ! unat (tail rb))"
    using ne by (simp add: ring_buffer_read_def)
qed

lemma read_avail:
  assumes inv: "rb_inv rb" and ne: "head rb \<noteq> tail rb"
  shows "unat (ring_buffer_available (snd (ring_buffer_read rb))) =
         unat (ring_buffer_available rb) - 1"
proof -
  let ?rb' = "snd (ring_buffer_read rb)"
  have inv': "rb_inv ?rb'" using inv by (rule rb_inv_read)
  have "unat (head rb) \<noteq> unat (tail rb)" using ne by (simp add: word_unat_eq_iff)
  then show ?thesis
    using inv_nat [OF inv]
    unfolding unat_available [OF inv'] unat_available [OF inv] read_tail [OF inv ne] size_read
    by (intro nat_read_avail) simp_all
qed

lemma available_0_iff:
  assumes inv: "rb_inv rb"
  shows "unat (ring_buffer_available rb) = 0 \<longleftrightarrow> head rb = tail rb"
  using inv_nat [OF inv] unfolding unat_available [OF inv] word_unat_eq_iff
  by (auto split: if_splits)


lemma nat_pos_distinct:
  fixes t k a N :: nat
  assumes "k < a" "a < N"
  shows "(t + k) mod N \<noteq> (t + a) mod N"
proof
  assume "(t + k) mod N = (t + a) mod N"
  then have "(t + a) mod N = (t + k) mod N" by simp
  moreover have "t + k \<le> t + a" using assms by simp
  ultimately have "N dvd (t + a) - (t + k)" by (simp add: mod_eq_dvd_iff_nat)
  then have "N dvd a - k" by simp
  moreover have "0 < a - k" "a - k < N" using assms by simp_all
  ultimately show False by (auto dest: dvd_imp_le)
qed

lemma write_contents:
  assumes wf: "rb_wf rb" and space: "unat (ring_buffer_available rb) + 1 < unat (size_rb rb)"
  shows "rb_contents (snd (ring_buffer_write rb d)) = rb_contents rb @ [d]"
proof -
  let ?N = "unat (size_rb rb)" and ?t = "unat (tail rb)" and ?h = "unat (head rb)"
  let ?a = "unat (ring_buffer_available rb)"
  let ?buf = "buffer rb"
  from wf have inv: "rb_inv rb" and len: "?N \<le> length ?buf" by (simp_all add: rb_wf_def)
  have pos: "(?t + ?a) mod ?N = ?h" using inv by (rule head_position)
  have hN: "?h < ?N" using inv_nat [OF inv] by simp
  have old: "?buf[?h := d] ! ((?t + k) mod ?N) = ?buf ! ((?t + k) mod ?N)" if "k < ?a" for k
  proof -
    have "(?t + k) mod ?N \<noteq> (?t + ?a) mod ?N"
      using that space by (intro nat_pos_distinct) simp_all
    with pos show ?thesis by simp
  qed
  have new: "?buf[?h := d] ! ((?t + ?a) mod ?N) = d"
    using pos hN len by simp
  have "rb_contents (snd (ring_buffer_write rb d)) =
        map (\<lambda>k. ?buf[?h := d] ! ((?t + k) mod ?N)) [0..<?a + 1]"
    unfolding rb_contents_def
    by (simp only: write_head [OF inv space] write_avail [OF inv space] size_write)
  also have "\<dots> = map (\<lambda>k. ?buf[?h := d] ! ((?t + k) mod ?N)) [0..<?a] @
                   [?buf[?h := d] ! ((?t + ?a) mod ?N)]"
    by simp
  also have "map (\<lambda>k. ?buf[?h := d] ! ((?t + k) mod ?N)) [0..<?a] =
             map (\<lambda>k. ?buf ! ((?t + k) mod ?N)) [0..<?a]"
    by (rule map_cong) (simp_all add: old)
  finally show ?thesis by (simp only: new rb_contents_def)
qed

lemma read_contents:
  assumes inv: "rb_inv rb" and ne: "head rb \<noteq> tail rb"
  shows "fst (ring_buffer_read rb) = Some (hd (rb_contents rb))"
    and "rb_contents (snd (ring_buffer_read rb)) = tl (rb_contents rb)"
proof -
  let ?N = "unat (size_rb rb)" and ?t = "unat (tail rb)" and ?h = "unat (head rb)"
  let ?a = "unat (ring_buffer_available rb)"
  let ?buf = "buffer rb"
  have a: "0 < ?a" using available_0_iff [OF inv] ne by simp
  have tN: "?t < ?N" using inv_nat [OF inv] by simp
  from a have upt: "[0..<?a] = 0 # map Suc [0..<?a - 1]"
    by (simp add: map_Suc_upt upt_conv_Cons del: upt_Suc)
  have c: "rb_contents rb = ?buf ! ?t # map (\<lambda>k. ?buf ! ((?t + Suc k) mod ?N)) [0..<?a - 1]"
    unfolding rb_contents_def using tN by (simp only: upt list.map map_map comp_def) simp
  show "fst (ring_buffer_read rb) = Some (hd (rb_contents rb))"
    by (simp only: read_tail [OF inv ne] c list.sel)
  have "rb_contents (snd (ring_buffer_read rb)) =
        map (\<lambda>k. ?buf ! (((?t + 1) mod ?N + k) mod ?N)) [0..<?a - 1]"
    unfolding rb_contents_def
    by (simp only: read_tail [OF inv ne] read_avail [OF inv ne] size_read)
  also have "\<dots> = map (\<lambda>k. ?buf ! ((?t + Suc k) mod ?N)) [0..<?a - 1]"
    by (simp add: mod_add_left_eq)
  finally show "rb_contents (snd (ring_buffer_read rb)) = tl (rb_contents rb)"
    by (simp only: c list.sel)
qed


lemma rb_wf_write: "rb_wf rb \<Longrightarrow> rb_wf (snd (ring_buffer_write rb d))"
  using rb_inv_write [of rb d] by (simp add: rb_wf_def) (simp add: ring_buffer_write_def Let_def)

lemma write_loop_ok:
  assumes "rb_wf rb" and "unat (ring_buffer_available rb) + length ds < unat (size_rb rb)"
  shows "fst (write_multiple_loop rb ds w) = w + word_of_nat (length ds) \<and>
         rb_wf (snd (write_multiple_loop rb ds w)) \<and>
         size_rb (snd (write_multiple_loop rb ds w)) = size_rb rb \<and>
         rb_contents (snd (write_multiple_loop rb ds w)) = rb_contents rb @ ds"
  using assms
proof (induction ds arbitrary: rb w)
  case Nil
  then show ?case by simp
next
  case (Cons d ds)
  from Cons.prems have inv: "rb_inv rb" by (simp add: rb_wf_def)
  from Cons.prems have space: "unat (ring_buffer_available rb) + 1 < unat (size_rb rb)" by simp
  obtain ok rb' where w: "ring_buffer_write rb d = (ok, rb')"
    by (cases "ring_buffer_write rb d")
  have ok: "ok" using write_head(4) [OF inv space, of d] w by simp
  have rb': "rb' = snd (ring_buffer_write rb d)" using w by simp
  have wf': "rb_wf rb'" unfolding rb' using Cons.prems(1) by (rule rb_wf_write)
  have sz: "size_rb rb' = size_rb rb" unfolding rb' by simp
  have av: "unat (ring_buffer_available rb') = unat (ring_buffer_available rb) + 1"
    unfolding rb' by (rule write_avail [OF inv space])
  have ct: "rb_contents rb' = rb_contents rb @ [d]"
    unfolding rb' by (rule write_contents [OF Cons.prems(1) space])
  have "unat (ring_buffer_available rb') + length ds < unat (size_rb rb')"
    using Cons.prems(2) by (simp add: av sz)
  from Cons.IH [OF wf' this, of "w + 1"] show ?case
    by (simp add: w ok sz ct)
qed

lemma length_rb_contents [simp]: "length (rb_contents rb) = unat (ring_buffer_available rb)"
  by (simp add: rb_contents_def)

lemma read_loop_ok:
  assumes "rb_inv rb" and "n \<le> unat (ring_buffer_available rb)"
  shows "fst (read_multiple_loop rb n) = take n (rb_contents rb) \<and>
         rb_inv (snd (read_multiple_loop rb n)) \<and>
         size_rb (snd (read_multiple_loop rb n)) = size_rb rb \<and>
         rb_contents (snd (read_multiple_loop rb n)) = drop n (rb_contents rb)"
  using assms
proof (induction n arbitrary: rb)
  case 0
  then show ?case by simp
next
  case (Suc n)
  from Suc.prems have ne: "head rb \<noteq> tail rb"
    using available_0_iff [OF Suc.prems(1)] by auto
  obtain r rb' where rd: "ring_buffer_read rb = (r, rb')"
    by (cases "ring_buffer_read rb")
  have r: "r = Some (hd (rb_contents rb))"
    using read_contents(1) [OF Suc.prems(1) ne] rd by simp
  have rb': "rb' = snd (ring_buffer_read rb)" using rd by simp
  have inv': "rb_inv rb'" unfolding rb' using Suc.prems(1) by (rule rb_inv_read)
  have sz: "size_rb rb' = size_rb rb" unfolding rb' by simp
  have ct: "rb_contents rb' = tl (rb_contents rb)"
    unfolding rb' by (rule read_contents(2) [OF Suc.prems(1) ne])
  have "n \<le> unat (ring_buffer_available rb')"
    using Suc.prems(2) unfolding rb' by (simp add: read_avail [OF Suc.prems(1) ne])
  from Suc.IH [OF inv' this] have ih:
    "fst (read_multiple_loop rb' n) = take n (tl (rb_contents rb))"
    "rb_inv (snd (read_multiple_loop rb' n))"
    "size_rb (snd (read_multiple_loop rb' n)) = size_rb rb"
    "rb_contents (snd (read_multiple_loop rb' n)) = drop n (tl (rb_contents rb))"
    by (simp_all add: ct sz)
  have "0 < length (rb_contents rb)"
    using Suc.prems(2) by simp
  then obtain x xs where c: "rb_contents rb = x # xs" by (cases "rb_contents rb") simp_all
  show ?case
    using ih by (simp add: rd r split_beta c)
qed


section \<open>The frame codec: claims\<close>

text \<open>
  Claim C1. For every sample array holding the 3694 samples, with the layer initialised
  and both pointers non-null, \<open>ccd_data_layer_process_readout\<close> returns \<open>CCD_FRAME_OK\<close>,
  and \<open>ccd_data_layer_validate_frame\<close> on the frame it wrote returns \<open>CCD_FRAME_OK\<close>.
\<close>

theorem build_then_validate_ok:
  assumes "initialized s" and "CCD_PIXEL_COUNT \<le> length adc"
  shows "case ccd_data_layer_process_readout s (Some adc) (Some f0) of
           (status, frame, s') \<Rightarrow>
             status = CCD_FRAME_OK \<and> frame \<noteq> None \<and>
             ccd_data_layer_validate_frame frame = CCD_FRAME_OK"
proof -
  from process_readout_built [OF assms(1), of adc f0] obtain f where
    "ccd_data_layer_process_readout s (Some adc) (Some f0) =
       (CCD_FRAME_OK, Some f, s\<lparr>frame_counter_var := frame_counter_var s + 1\<rparr>)"
    "start_marker f = FRAME_START_MARKER" "end_marker f = FRAME_END_MARKER"
    "pixel_count f = of_nat CCD_PIXEL_COUNT"
    "checksum f = ccd_data_layer_calculate_crc16 (frame_bytes f) (FRAME_TOTAL_SIZE - 2)"
    by blast
  then show ?thesis
    by (simp add: ccd_data_layer_validate_frame_def)
qed

theorem build_then_validate_ok_witness:
  "initialized \<lparr>frame_counter_var = 7, initialized = True\<rparr> \<and>
   CCD_PIXEL_COUNT \<le> length (replicate 3694 (0x123 :: uint16_t)) \<and>
   (case ccd_data_layer_process_readout \<lparr>frame_counter_var = 7, initialized = True\<rparr>
           (Some (replicate 3694 0x123))
           (Some \<lparr>start_marker = [0, 0, 0, 0], frame_counter = 0, pixel_count = 0,
                  pixel_data = replicate 3694 0, end_marker = [0, 0, 0, 0], checksum = 0\<rparr>) of
      (status, frame, s') \<Rightarrow>
        status = CCD_FRAME_OK \<and> frame \<noteq> None \<and>
        ccd_data_layer_validate_frame frame = CCD_FRAME_OK)"
proof -
  have init: "initialized \<lparr>frame_counter_var = 7, initialized = True\<rparr>" by simp
  have len: "CCD_PIXEL_COUNT \<le> length (replicate 3694 (0x123 :: uint16_t))"
    by (simp add: CCD_PIXEL_COUNT_def)
  from init len
    build_then_validate_ok [OF init len, of
      "\<lparr>start_marker = [0, 0, 0, 0], frame_counter = 0, pixel_count = 0,
        pixel_data = replicate 3694 0, end_marker = [0, 0, 0, 0], checksum = 0\<rparr>"]
  show ?thesis by (intro conjI) (erule conjunct1 | assumption)+
qed

text \<open>
  Claim C2, as the code has it. Take a frame written by \<open>ccd_data_layer_process_readout\<close>,
  replace one byte of its 7402-byte image by any different value, and validate the result.
  A changed marker byte (offsets 0-3 and 7396-7399) gives \<open>CCD_FRAME_ERROR_INVALID_DATA\<close>,
  whatever the checksum field holds; a changed byte of the pixel-count field (offsets 6
  and 7) gives \<open>CCD_FRAME_ERROR_SIZE\<close>, because the pixel count is checked before the
  checksum; a changed byte anywhere else (frame counter, pixel data, checksum field)
  gives \<open>CCD_FRAME_ERROR_CHECKSUM\<close>.
\<close>

theorem single_byte_corruption:
  assumes "initialized s" and "CCD_PIXEL_COUNT \<le> length adc"
    and "ccd_data_layer_process_readout s (Some adc) (Some f0) = (status, Some f, s')"
    and "i < FRAME_TOTAL_SIZE" and "b \<noteq> frame_bytes f ! i"
  shows "ccd_data_layer_validate_frame (Some (bytes_frame ((frame_bytes f)[i := b]))) =
           (if i < 4 \<or> (7396 \<le> i \<and> i < 7400) then CCD_FRAME_ERROR_INVALID_DATA
            else if i = 6 \<or> i = 7 then CCD_FRAME_ERROR_SIZE
            else CCD_FRAME_ERROR_CHECKSUM) \<and>
         (i < 4 \<or> (7396 \<le> i \<and> i < 7400) \<longrightarrow>
            (\<forall>c. ccd_data_layer_validate_frame
                   (Some ((bytes_frame ((frame_bytes f)[i := b]))\<lparr>checksum := c\<rparr>)) =
                 CCD_FRAME_ERROR_INVALID_DATA))"
proof -
  let ?bs = "frame_bytes f"
  let ?f' = "bytes_frame (?bs[i := b])"
  note bb = built_bytes [OF assms(1) assms(3)]
  have i: "i < 7402" using assms(4) by (simp only: total_size)
  have main: "ccd_data_layer_validate_frame (Some ?f') =
           (if i < 4 \<or> (7396 \<le> i \<and> i < 7400) then CCD_FRAME_ERROR_INVALID_DATA
            else if i = 6 \<or> i = 7 then CCD_FRAME_ERROR_SIZE
            else CCD_FRAME_ERROR_CHECKSUM)"
    using bb i assms(5) by (rule corrupted_bytes)
  have "ccd_data_layer_validate_frame (Some (?f'\<lparr>checksum := c\<rparr>)) =
      CCD_FRAME_ERROR_INVALID_DATA" if m: "i < 4 \<or> (7396 \<le> i \<and> i < 7400)" for c
  proof (rule bad_marker_invalid, rule ccontr)
    assume "\<not> (take 4 (start_marker ?f') \<noteq> take 4 FRAME_START_MARKER \<or>
                take 4 (end_marker ?f') \<noteq> take 4 FRAME_END_MARKER)"
    then have "ccd_data_layer_validate_frame (Some ?f') \<noteq> CCD_FRAME_ERROR_INVALID_DATA"
      by (simp add: ccd_data_layer_validate_frame_def Let_def)
    with main m show False by simp
  qed
  with main show ?thesis by blast
qed

theorem single_byte_corruption_witness:
  "initialized \<lparr>frame_counter_var = 7, initialized = True\<rparr> \<and>
   CCD_PIXEL_COUNT \<le> length (replicate 3694 (0x123 :: uint16_t)) \<and>
   ccd_data_layer_process_readout \<lparr>frame_counter_var = 7, initialized = True\<rparr>
       (Some (replicate 3694 0x123))
       (Some \<lparr>start_marker = [0, 0, 0, 0], frame_counter = 0, pixel_count = 0,
              pixel_data = replicate 3694 0, end_marker = [0, 0, 0, 0], checksum = 0\<rparr>) =
     (CCD_FRAME_OK,
      Some (the (fst (snd (ccd_data_layer_process_readout
         \<lparr>frame_counter_var = 7, initialized = True\<rparr>
         (Some (replicate 3694 0x123))
         (Some \<lparr>start_marker = [0, 0, 0, 0], frame_counter = 0, pixel_count = 0,
                pixel_data = replicate 3694 0, end_marker = [0, 0, 0, 0], checksum = 0\<rparr>))))),
      \<lparr>frame_counter_var = 8, initialized = True\<rparr>) \<and>
   4 < FRAME_TOTAL_SIZE \<and>
   0 \<noteq> frame_bytes (the (fst (snd (ccd_data_layer_process_readout
         \<lparr>frame_counter_var = 7, initialized = True\<rparr>
         (Some (replicate 3694 0x123))
         (Some \<lparr>start_marker = [0, 0, 0, 0], frame_counter = 0, pixel_count = 0,
                pixel_data = replicate 3694 0, end_marker = [0, 0, 0, 0], checksum = 0\<rparr>))))) ! 4 \<and>
   ccd_data_layer_validate_frame (Some (bytes_frame
     ((frame_bytes (the (fst (snd (ccd_data_layer_process_readout
         \<lparr>frame_counter_var = 7, initialized = True\<rparr>
         (Some (replicate 3694 0x123))
         (Some \<lparr>start_marker = [0, 0, 0, 0], frame_counter = 0, pixel_count = 0,
                pixel_data = replicate 3694 0, end_marker = [0, 0, 0, 0], checksum = 0\<rparr>))))))
      [4 := 0]))) = CCD_FRAME_ERROR_CHECKSUM"
proof -
  let ?s = "\<lparr>frame_counter_var = 7, initialized = True\<rparr>"
  let ?adc = "replicate 3694 (0x123 :: uint16_t)"
  let ?old = "\<lparr>start_marker = [0, 0, 0, 0], frame_counter = 0, pixel_count = 0,
             pixel_data = replicate 3694 0, end_marker = [0, 0, 0, 0], checksum = 0\<rparr>"
  let ?f = "the (fst (snd (ccd_data_layer_process_readout ?s (Some ?adc) (Some ?old))))"
  have init: "initialized ?s" by simp
  have len: "CCD_PIXEL_COUNT \<le> length ?adc" by (simp add: CCD_PIXEL_COUNT_def)
  from process_readout_built [OF init, of ?adc ?old] obtain f where
    run: "ccd_data_layer_process_readout ?s (Some ?adc) (Some ?old) =
       (CCD_FRAME_OK, Some f, ?s\<lparr>frame_counter_var := frame_counter_var ?s + 1\<rparr>)"
    and wf: "frame_wf f" and cnt: "frame_counter f = frame_counter_var ?s"
    by blast
  have f: "?f = f" by (simp only: run snd_conv fst_conv option.sel)
  have run': "ccd_data_layer_process_readout ?s (Some ?adc) (Some ?old) =
       (CCD_FRAME_OK, Some ?f, \<lparr>frame_counter_var = 8, initialized = True\<rparr>)"
    unfolding f by (simp only: run) simp
  have pos: "4 < FRAME_TOTAL_SIZE" by (simp add: total_size)
  have byte: "0 \<noteq> frame_bytes ?f ! 4"
    unfolding f by (simp add: frame_bytes_nth_header [OF wf] cnt)
  from single_byte_corruption [OF init len run' pos byte]
  have "ccd_data_layer_validate_frame (Some (bytes_frame ((frame_bytes ?f)[4 := 0]))) =
      CCD_FRAME_ERROR_CHECKSUM"
    by simp
  with init len run' pos byte show ?thesis by blast
qed

text \<open>
  The claim as stated fails at offset 6, the low byte of the pixel-count field, which is
  outside both markers: the validator answers \<open>CCD_FRAME_ERROR_SIZE\<close>, not
  \<open>CCD_FRAME_ERROR_CHECKSUM\<close>.
\<close>

theorem single_byte_corruption_counterexample:
  "6 < FRAME_TOTAL_SIZE \<and> \<not> (6 < (4::nat)) \<and> \<not> (7396 \<le> (6::nat) \<and> (6::nat) < 7400) \<and>
   0 \<noteq> frame_bytes (the (fst (snd (ccd_data_layer_process_readout
         \<lparr>frame_counter_var = 7, initialized = True\<rparr>
         (Some (replicate 3694 0x123))
         (Some \<lparr>start_marker = [0, 0, 0, 0], frame_counter = 0, pixel_count = 0,
                pixel_data = replicate 3694 0, end_marker = [0, 0, 0, 0], checksum = 0\<rparr>))))) ! 6 \<and>
   ccd_data_layer_validate_frame (Some (bytes_frame
     ((frame_bytes (the (fst (snd (ccd_data_layer_process_readout
         \<lparr>frame_counter_var = 7, initialized = True\<rparr>
         (Some (replicate 3694 0x123))
         (Some \<lparr>start_marker = [0, 0, 0, 0], frame_counter = 0, pixel_count = 0,
                pixel_data = replicate 3694 0, end_marker = [0, 0, 0, 0], checksum = 0\<rparr>))))))
      [6 := 0]))) \<noteq> CCD_FRAME_ERROR_CHECKSUM"
proof -
  let ?s = "\<lparr>frame_counter_var = 7, initialized = True\<rparr>"
  let ?adc = "replicate 3694 (0x123 :: uint16_t)"
  let ?old = "\<lparr>start_marker = [0, 0, 0, 0], frame_counter = 0, pixel_count = 0,
             pixel_data = replicate 3694 0, end_marker = [0, 0, 0, 0], checksum = 0\<rparr>"
  let ?f = "the (fst (snd (ccd_data_layer_process_readout ?s (Some ?adc) (Some ?old))))"
  have init: "initialized ?s" by simp
  from process_readout_built [OF init, of ?adc ?old] obtain f where
    run: "ccd_data_layer_process_readout ?s (Some ?adc) (Some ?old) =
       (CCD_FRAME_OK, Some f, ?s\<lparr>frame_counter_var := frame_counter_var ?s + 1\<rparr>)"
    and wf: "frame_wf f" and pc: "pixel_count f = of_nat CCD_PIXEL_COUNT"
    by blast
  have f: "?f = f" by (simp only: run snd_conv fst_conv option.sel)
  have byte: "0 \<noteq> frame_bytes ?f ! 6"
    unfolding f by (simp add: frame_bytes_nth_header [OF wf] pc CCD_PIXEL_COUNT_def)
  note bb = built_bytes [OF init run]
  have "ccd_data_layer_validate_frame (Some (bytes_frame ((frame_bytes f)[6 := 0]))) =
      CCD_FRAME_ERROR_SIZE"
    using corrupted_bytes [OF bb, of 6 0] byte unfolding f by simp
  then show ?thesis using byte unfolding f by (simp add: total_size)
qed

text \<open>
  Claim C3. The checksum field of every frame written by
  \<open>ccd_data_layer_process_readout\<close> is the result of the table-driven loop, started at
  \<open>0xFFFF\<close>, over the first 7400 of the 7402 bytes of the frame; the table is the one
  determined by the polynomial \<open>0x1021\<close>; each table-driven step
  \<open>(crc << 8) xor table[(crc >> 8) xor byte]\<close> equals eight bitwise steps on the byte; so
  the checksum equals the bitwise CRC-16-CCITT of those 7400 bytes.
\<close>

theorem checksum_is_crc16_ccitt:
  assumes "initialized s" and "CCD_PIXEL_COUNT \<le> length adc"
  shows "(case ccd_data_layer_process_readout s (Some adc) (Some f0) of
           (status, frame, s') \<Rightarrow>
             (case frame of
                None \<Rightarrow> False
              | Some f \<Rightarrow>
                  length (frame_bytes f) = 7402 \<and>
                  checksum f = crc16_loop 0xFFFF (take 7400 (frame_bytes f)) \<and>
                  checksum f = crc16_ccitt_bitwise 0xFFFF (take 7400 (frame_bytes f)))) \<and>
         crc16_table = map crc16_ccitt_table_entry [0..<256] \<and>
         (\<forall>crc d. crc16_step crc d =
            push_bit 8 crc XOR crc16_table ! unat ((ucast (drop_bit 8 crc) :: uint8_t) XOR d)) \<and>
         (\<forall>crc d. crc16_step crc d = crc16_ccitt_byte crc d)"
proof -
  from process_readout_built [OF assms(1), of adc f0] obtain f where
    run: "ccd_data_layer_process_readout s (Some adc) (Some f0) =
       (CCD_FRAME_OK, Some f, s\<lparr>frame_counter_var := frame_counter_var s + 1\<rparr>)"
    and wf: "frame_wf f"
    and ck: "checksum f = ccd_data_layer_calculate_crc16 (frame_bytes f) (FRAME_TOTAL_SIZE - 2)"
    by blast
  have len: "length (frame_bytes f) = 7402"
    using frame_bytes_length [OF wf] by (simp only: total_size)
  have c1: "checksum f = crc16_loop 0xFFFF (take 7400 (frame_bytes f))"
    using ck by (simp only: ccd_data_layer_calculate_crc16_def total_size(4))
  then have c2: "checksum f = crc16_ccitt_bitwise 0xFFFF (take 7400 (frame_bytes f))"
    by (simp only: crc16_loop_bitwise)
  have a: "case ccd_data_layer_process_readout s (Some adc) (Some f0) of
           (status, frame, s') \<Rightarrow>
             (case frame of
                None \<Rightarrow> False
              | Some f \<Rightarrow>
                  length (frame_bytes f) = 7402 \<and>
                  checksum f = crc16_loop 0xFFFF (take 7400 (frame_bytes f)) \<and>
                  checksum f = crc16_ccitt_bitwise 0xFFFF (take 7400 (frame_bytes f)))"
    using len c1 c2 by (simp add: run)
  have b: "crc16_table = map crc16_ccitt_table_entry [0..<256]"
    by (simp only: tab)
  have c: "crc16_step crc d =
           push_bit 8 crc XOR crc16_table ! unat ((ucast (drop_bit 8 crc) :: uint8_t) XOR d)"
    for crc d
    by (simp only: crc16_step_def Let_def)
  have d: "crc16_step crc d = crc16_ccitt_byte crc d" for crc d
    by (simp only: step_bitwise crc16_ccitt_byte_def)
  from a b c d show ?thesis by blast
qed

theorem checksum_is_crc16_ccitt_witness:
  "initialized \<lparr>frame_counter_var = 7, initialized = True\<rparr> \<and>
   CCD_PIXEL_COUNT \<le> length (replicate 3694 (0x123 :: uint16_t)) \<and>
   (case ccd_data_layer_process_readout \<lparr>frame_counter_var = 7, initialized = True\<rparr>
           (Some (replicate 3694 0x123))
           (Some \<lparr>start_marker = [0, 0, 0, 0], frame_counter = 0, pixel_count = 0,
                  pixel_data = replicate 3694 0, end_marker = [0, 0, 0, 0], checksum = 0\<rparr>) of
      (status, frame, s') \<Rightarrow>
        (case frame of
           None \<Rightarrow> False
         | Some f \<Rightarrow>
             length (frame_bytes f) = 7402 \<and>
             checksum f = crc16_loop 0xFFFF (take 7400 (frame_bytes f)) \<and>
             checksum f = crc16_ccitt_bitwise 0xFFFF (take 7400 (frame_bytes f))))"
proof -
  have init: "initialized \<lparr>frame_counter_var = 7, initialized = True\<rparr>" by simp
  have len: "CCD_PIXEL_COUNT \<le> length (replicate 3694 (0x123 :: uint16_t))"
    by (simp add: CCD_PIXEL_COUNT_def)
  from init len
    checksum_is_crc16_ccitt [OF init len, of
      "\<lparr>start_marker = [0, 0, 0, 0], frame_counter = 0, pixel_count = 0,
        pixel_data = replicate 3694 0, end_marker = [0, 0, 0, 0], checksum = 0\<rparr>"]
  show ?thesis by (intro conjI) (erule conjunct1 | assumption)+
qed

text \<open>
  Claim C9. Of two consecutive successful invocations of
  \<open>ccd_data_layer_process_readout\<close>, the first stores the current counter in its frame
  and the second stores that value plus 1 modulo 65536; each invocation advances the
  counter by one. The function takes no input from the command layer or the transport,
  so this holds whether or not a frame is transmitted.
\<close>

theorem frame_counter_increments:
  assumes "initialized s" and "CCD_PIXEL_COUNT \<le> length adc1" and "CCD_PIXEL_COUNT \<le> length adc2"
  shows "case ccd_data_layer_process_readout s (Some adc1) (Some fa) of
           (status1, frame1, s1) \<Rightarrow>
             (case ccd_data_layer_process_readout s1 (Some adc2) (Some fb) of
                (status2, frame2, s2) \<Rightarrow>
                  status1 = CCD_FRAME_OK \<and> status2 = CCD_FRAME_OK \<and>
                  map_option frame_counter frame1 = Some (ccd_data_layer_get_frame_count s) \<and>
                  map_option frame_counter frame2 = Some (ccd_data_layer_get_frame_count s + 1) \<and>
                  unat (ccd_data_layer_get_frame_count s + 1) =
                    (unat (ccd_data_layer_get_frame_count s) + 1) mod 65536 \<and>
                  ccd_data_layer_get_frame_count s1 = ccd_data_layer_get_frame_count s + 1 \<and>
                  ccd_data_layer_get_frame_count s2 = ccd_data_layer_get_frame_count s1 + 1)"
proof -
  let ?s1 = "s\<lparr>frame_counter_var := frame_counter_var s + 1\<rparr>"
  from process_readout_built [OF assms(1), of adc1 fa] obtain a where
    r1: "ccd_data_layer_process_readout s (Some adc1) (Some fa) = (CCD_FRAME_OK, Some a, ?s1)"
    and a: "frame_counter a = frame_counter_var s"
    by blast
  have "initialized ?s1" using assms(1) by simp
  from process_readout_built [OF this, of adc2 fb] obtain b where
    r2: "ccd_data_layer_process_readout ?s1 (Some adc2) (Some fb) =
          (CCD_FRAME_OK, Some b, ?s1\<lparr>frame_counter_var := frame_counter_var ?s1 + 1\<rparr>)"
    and b: "frame_counter b = frame_counter_var ?s1"
    by blast
  have "unat (frame_counter_var s + 1) = (unat (frame_counter_var s) + 1) mod 65536"
    by (simp add: unat_word_ariths)
  then show ?thesis
    by (simp add: r1 r2 a b ccd_data_layer_get_frame_count_def)
qed

theorem frame_counter_increments_witness:
  "initialized \<lparr>frame_counter_var = 0xFFFF, initialized = True\<rparr> \<and>
   CCD_PIXEL_COUNT \<le> length (replicate 3694 (0x123 :: uint16_t)) \<and>
   CCD_PIXEL_COUNT \<le> length (replicate 6000 (0x456 :: uint16_t)) \<and>
   (case ccd_data_layer_process_readout \<lparr>frame_counter_var = 0xFFFF, initialized = True\<rparr>
           (Some (replicate 3694 0x123))
           (Some \<lparr>start_marker = [0, 0, 0, 0], frame_counter = 0, pixel_count = 0,
                  pixel_data = replicate 3694 0, end_marker = [0, 0, 0, 0], checksum = 0\<rparr>) of
      (status1, frame1, s1) \<Rightarrow>
        (case ccd_data_layer_process_readout s1 (Some (replicate 6000 0x456)) frame1 of
           (status2, frame2, s2) \<Rightarrow>
             map_option frame_counter frame1 = Some 0xFFFF \<and>
             map_option frame_counter frame2 = Some 0 \<and>
             ccd_data_layer_get_frame_count s2 = 1))"
proof -
  let ?s = "\<lparr>frame_counter_var = 0xFFFF, initialized = True\<rparr>"
  let ?old = "\<lparr>start_marker = [0, 0, 0, 0], frame_counter = 0, pixel_count = 0,
                  pixel_data = replicate 3694 0, end_marker = [0, 0, 0, 0], checksum = 0\<rparr>"
  have init: "initialized ?s" by simp
  have len1: "CCD_PIXEL_COUNT \<le> length (replicate 3694 (0x123 :: uint16_t))"
    by (simp add: CCD_PIXEL_COUNT_def)
  have len2: "CCD_PIXEL_COUNT \<le> length (replicate 6000 (0x456 :: uint16_t))"
    by (simp add: CCD_PIXEL_COUNT_def)
  obtain st1 fr1 s1 where r1:
    "ccd_data_layer_process_readout ?s (Some (replicate 3694 0x123)) (Some ?old) = (st1, fr1, s1)"
    by (rule prod_cases3)
  obtain a where a: "fr1 = Some a"
    using process_readout_built [OF init, of "replicate 3694 0x123" ?old] by (auto simp add: r1)
  obtain st2 fr2 s2 where r2:
    "ccd_data_layer_process_readout s1 (Some (replicate 6000 0x456)) (Some a) = (st2, fr2, s2)"
    by (rule prod_cases3)
  have wrap: "(0xFFFF :: uint16_t) + 1 = 0" by simp
  from frame_counter_increments [OF init len1 len2, where fa = ?old and fb = a]
  have "map_option frame_counter fr1 = Some 0xFFFF \<and>
        map_option frame_counter fr2 = Some 0 \<and> ccd_data_layer_get_frame_count s2 = 1"
    unfolding r1 r2 prod.case ccd_data_layer_get_frame_count_def
      ccd_data_layer.simps wrap
    by simp
  with init len1 len2 show ?thesis by (simp add: r1 r2 a)
qed

text \<open>
  Claim C10. \<open>ccd_data_layer_process_readout\<close> fails exactly when the layer is not
  initialised or one of the two pointers is null; it then returns
  \<open>CCD_FRAME_ERROR_INVALID_DATA\<close> and leaves the state and the frame untouched, so
  \<open>ccd_data_layer_get_frame_count\<close> returns the same value before and after. The value
  it returns changes exactly on the invocations that return \<open>CCD_FRAME_OK\<close>.
\<close>

theorem failed_readout_keeps_counter:
  "case ccd_data_layer_process_readout s adc_buffer frame_out of
     (status, frame, s') \<Rightarrow>
       (status \<noteq> CCD_FRAME_OK \<longleftrightarrow>
          \<not> initialized s \<or> adc_buffer = None \<or> frame_out = None) \<and>
       (status \<noteq> CCD_FRAME_OK \<longrightarrow>
          status = CCD_FRAME_ERROR_INVALID_DATA \<and> s' = s \<and> frame = frame_out \<and>
          ccd_data_layer_get_frame_count s' = ccd_data_layer_get_frame_count s) \<and>
       (ccd_data_layer_get_frame_count s' \<noteq> ccd_data_layer_get_frame_count s \<longleftrightarrow>
          status = CCD_FRAME_OK)"
  by (simp add: ccd_data_layer_process_readout_def ccd_data_layer_get_frame_count_def Let_def
      split: option.splits)

theorem failed_readout_keeps_counter_witness:
  "\<not> initialized \<lparr>frame_counter_var = 41, initialized = False\<rparr> \<and>
   (case ccd_data_layer_process_readout \<lparr>frame_counter_var = 41, initialized = False\<rparr>
           (Some (replicate 3694 0x123)) None of
      (status, frame, s') \<Rightarrow>
        status \<noteq> CCD_FRAME_OK \<and> ccd_data_layer_get_frame_count s' = 41)"
proof -
  have uninit: "\<not> initialized \<lparr>frame_counter_var = 41, initialized = False\<rparr>" by simp
  have cnt: "ccd_data_layer_get_frame_count \<lparr>frame_counter_var = 41, initialized = False\<rparr> = 41"
    by (simp add: ccd_data_layer_get_frame_count_def)
  from failed_readout_keeps_counter
    [of "\<lparr>frame_counter_var = 41, initialized = False\<rparr>" "Some (replicate 3694 0x123)" None]
  show ?thesis using uninit cnt by (auto split: prod.splits)
qed


section \<open>The ring buffer: claims\<close>

text \<open>
  Claim C4. For a buffer initialised with a non-zero size and then driven by any sequence
  of write, read, peek, write\_multiple, read\_multiple and clear operations,
  \<open>ring_buffer_free_space\<close> plus \<open>ring_buffer_available\<close> equals the size minus 1, as
  natural numbers (no wrap-around), and neither value exceeds the size minus 1. Both are
  unsigned, so neither is negative.
\<close>

theorem ring_buffer_space_invariant:
  assumes "sz \<noteq> 0"
  shows "unat (ring_buffer_free_space (rb_run (ring_buffer_init storage sz) ops)) +
         unat (ring_buffer_available (rb_run (ring_buffer_init storage sz) ops)) = unat sz - 1 \<and>
         unat (ring_buffer_available (rb_run (ring_buffer_init storage sz) ops)) \<le> unat sz - 1 \<and>
         unat (ring_buffer_free_space (rb_run (ring_buffer_init storage sz) ops)) \<le> unat sz - 1 \<and>
         size_rb (rb_run (ring_buffer_init storage sz) ops) = sz"
proof -
  let ?rb = "rb_run (ring_buffer_init storage sz) ops"
  have "rb_inv (ring_buffer_init storage sz)" using assms by (rule rb_inv_init)
  then have inv: "rb_inv ?rb" and sz: "size_rb ?rb = size_rb (ring_buffer_init storage sz)"
    using rb_run_inv by blast+
  have "size_rb ?rb = sz" using sz by (simp add: ring_buffer_init_def)
  with space_of_inv [OF inv] show ?thesis by simp
qed

theorem ring_buffer_space_invariant_witness:
  "(8 :: uint16_t) \<noteq> 0 \<and>
   unat (ring_buffer_free_space (rb_run (ring_buffer_init (replicate 8 0) 8)
       [Op_write 1, Op_write_multiple [2, 3, 4, 5, 6, 7, 8, 9] 8, Op_read, Op_peek,
        Op_read_multiple 3, Op_write 10, Op_clear, Op_write 11])) +
   unat (ring_buffer_available (rb_run (ring_buffer_init (replicate 8 0) 8)
       [Op_write 1, Op_write_multiple [2, 3, 4, 5, 6, 7, 8, 9] 8, Op_read, Op_peek,
        Op_read_multiple 3, Op_write 10, Op_clear, Op_write 11])) = 7"
proof -
  have nz: "(8 :: uint16_t) \<noteq> 0" by simp
  from ring_buffer_space_invariant [OF nz, of "replicate 8 0"
      "[Op_write 1, Op_write_multiple [2, 3, 4, 5, 6, 7, 8, 9] 8, Op_read, Op_peek,
        Op_read_multiple 3, Op_write 10, Op_clear, Op_write 11]"]
  show ?thesis using nz by simp
qed

text \<open>
  Claim C5. Take a well-formed buffer of size \<open>N\<close> that is empty (\<open>head = tail\<close>) and
  \<open>K \<le> N - 1\<close> bytes. \<open>ring_buffer_write_multiple\<close> writes them one
  \<open>ring_buffer_write\<close> at a time and stops at the first failure: it reports \<open>K\<close>
  written, so every write succeeded. Reading \<open>K\<close> bytes back, one \<open>ring_buffer_read\<close>
  at a time, returns \<open>K\<close> bytes, the same sequence in the same order; afterwards
  \<open>ring_buffer_available\<close> is 0 and \<open>ring_buffer_free_space\<close> is \<open>N - 1\<close>.
\<close>

theorem ring_buffer_write_read_roundtrip:
  assumes "rb_wf rb" and "head rb = tail rb" and "length bs \<le> unat (size_rb rb) - 1"
  shows "case ring_buffer_write_multiple rb bs (word_of_nat (length bs)) of
           (written, rb1) \<Rightarrow>
             unat written = length bs \<and>
             (case ring_buffer_read_multiple rb1 (word_of_nat (length bs)) of
                (read_count, out, rb2) \<Rightarrow>
                  unat read_count = length bs \<and> out = bs \<and>
                  ring_buffer_available rb2 = 0 \<and>
                  unat (ring_buffer_free_space rb2) = unat (size_rb rb) - 1)"
proof -
  let ?K = "word_of_nat (length bs) :: uint16_t"
  from assms(1) have inv: "rb_inv rb" by (simp add: rb_wf_def)
  have N: "unat (size_rb rb) < 65536"
    using unsigned_less [of "size_rb rb", where ?'a = nat] by simp
  have pos: "0 < unat (size_rb rb)" using inv by (simp add: rb_inv_def unat_gt_0)
  have K: "unat ?K = length bs" using assms(3) N by (simp add: unat_of_nat)
  have empty: "unat (ring_buffer_available rb) = 0"
    using available_0_iff [OF inv] assms(2) by simp
  then have c0: "rb_contents rb = []" by (simp add: rb_contents_def)
  have space: "unat (ring_buffer_available rb) + length bs < unat (size_rb rb)"
    using empty assms(3) pos by simp
  obtain written rb1 where w: "write_multiple_loop rb bs 0 = (written, rb1)"
    by (cases "write_multiple_loop rb bs 0")
  from write_loop_ok [OF assms(1) space, of 0] w have
    wr: "written = ?K" and wf1: "rb_wf rb1" and sz1: "size_rb rb1 = size_rb rb"
    and c1: "rb_contents rb1 = bs"
    by (simp_all add: c0)
  from wf1 have inv1: "rb_inv rb1" by (simp add: rb_wf_def)
  have a1: "length bs \<le> unat (ring_buffer_available rb1)"
    using length_rb_contents [of rb1] c1 by simp
  obtain out rb2 where r: "read_multiple_loop rb1 (length bs) = (out, rb2)"
    by (cases "read_multiple_loop rb1 (length bs)")
  from read_loop_ok [OF inv1 a1] r have
    out: "out = bs" and inv2: "rb_inv rb2" and sz2: "size_rb rb2 = size_rb rb"
    and c2: "rb_contents rb2 = []"
    by (simp_all add: c1 sz1)
  have "unat (ring_buffer_available rb2) = 0"
    using length_rb_contents [of rb2] c2 by simp
  then have av2: "ring_buffer_available rb2 = 0" by (simp add: unat_eq_0)
  have fr2n: "unat (ring_buffer_free_space rb2) = unat (size_rb rb) - 1"
    using unat_free_space [OF inv2] by (simp add: av2 sz2)
  show ?thesis
    by (simp add: ring_buffer_write_multiple_def ring_buffer_read_multiple_def K w wr r out
        av2 fr2n)
qed

theorem ring_buffer_write_read_roundtrip_witness:
  "rb_wf (ring_buffer_init (replicate 8 0) 8) \<and>
   head (ring_buffer_init (replicate 8 0) 8) = tail (ring_buffer_init (replicate 8 0) 8) \<and>
   length [0x41, 0x42, 0x43 :: uint8_t] \<le> unat (size_rb (ring_buffer_init (replicate 8 0) 8)) - 1 \<and>
   (case ring_buffer_write_multiple (ring_buffer_init (replicate 8 0) 8) [0x41, 0x42, 0x43] 3 of
      (written, rb1) \<Rightarrow>
        unat written = 3 \<and>
        (case ring_buffer_read_multiple rb1 3 of
           (read_count, out, rb2) \<Rightarrow>
             unat read_count = 3 \<and> out = [0x41, 0x42, 0x43] \<and>
             ring_buffer_available rb2 = 0 \<and> unat (ring_buffer_free_space rb2) = 7))"
proof -
  let ?rb = "ring_buffer_init (replicate 8 0) 8"
  have wf: "rb_wf ?rb"
    by (simp add: rb_wf_def rb_inv_def ring_buffer_init_def)
  have e: "head ?rb = tail ?rb" by (simp add: ring_buffer_init_def)
  have l: "length [0x41, 0x42, 0x43 :: uint8_t] \<le> unat (size_rb ?rb) - 1"
    by (simp add: ring_buffer_init_def)
  have sz: "size_rb ?rb = 8" by (simp add: ring_buffer_init_def)
  from ring_buffer_write_read_roundtrip [OF wf e l]
  have "case ring_buffer_write_multiple ?rb [0x41, 0x42, 0x43] 3 of
      (written, rb1) \<Rightarrow>
        unat written = 3 \<and>
        (case ring_buffer_read_multiple rb1 3 of
           (read_count, out, rb2) \<Rightarrow>
             unat read_count = 3 \<and> out = [0x41, 0x42, 0x43] \<and>
             ring_buffer_available rb2 = 0 \<and> unat (ring_buffer_free_space rb2) = 7)"
    by (simp add: sz split: prod.splits)
  with wf e l show ?thesis by (intro conjI)
qed


section \<open>Properties of the transport and the command layer\<close>

lemma send_response_fields [simp]:
  "acquisition_state (send_response s r) = acquisition_state s"
  "integration_time_us (send_response s r) = integration_time_us s"
  "command_buffer (send_response s r) = command_buffer s"
  "command_index (send_response s r) = command_index s"
  "htim5 (send_response s r) = htim5 s"
  "rx_ring_buffer (usb (send_response s r)) = rx_ring_buffer (usb s)"
  by (simp_all add: send_response_def usb_transport_write_string_def usb_transport_write_def
      split_beta Let_def)

lemma send_response_tx:
  assumes wf: "rb_wf (tx_ring_buffer (usb s))"
    and space: "unat (ring_buffer_available (tx_ring_buffer (usb s))) + length r
                < unat (size_rb (tx_ring_buffer (usb s)))"
  shows "rb_wf (tx_ring_buffer (usb (send_response s r)))"
    and "size_rb (tx_ring_buffer (usb (send_response s r))) = size_rb (tx_ring_buffer (usb s))"
    and "rb_contents (tx_ring_buffer (usb (send_response s r))) =
         rb_contents (tx_ring_buffer (usb s)) @ r"
proof -
  let ?tx = "tx_ring_buffer (usb s)"
  have "unat (size_rb ?tx) < 65536"
    using unsigned_less [of "size_rb ?tx", where ?'a = nat] by simp
  with space have len: "unat (word_of_nat (length r) :: uint16_t) = length r"
    by (simp add: unat_of_nat)
  have tx': "tx_ring_buffer (usb (send_response s r)) = snd (write_multiple_loop ?tx r 0)"
    by (simp add: send_response_def usb_transport_write_string_def usb_transport_write_def
        ring_buffer_write_multiple_def split_beta Let_def len)
  from write_loop_ok [OF wf space, of 0]
  show "rb_wf (tx_ring_buffer (usb (send_response s r)))"
    and "size_rb (tx_ring_buffer (usb (send_response s r))) = size_rb (tx_ring_buffer (usb s))"
    and "rb_contents (tx_ring_buffer (usb (send_response s r))) =
         rb_contents (tx_ring_buffer (usb s)) @ r"
    unfolding tx' by simp_all
qed

lemma send_response_set_rx: "send_response (set_rx r s) x = set_rx r (send_response s x)"
  by (simp add: set_rx_def send_response_def usb_transport_write_string_def
      usb_transport_write_def split_beta Let_def)

lemma set_rx_fields [simp]:
  "acquisition_state (set_rx r s) = acquisition_state s"
  "integration_time_us (set_rx r s) = integration_time_us s"
  "command_buffer (set_rx r s) = command_buffer s"
  "command_index (set_rx r s) = command_index s"
  "htim5 (set_rx r s) = htim5 s"
  "rx_ring_buffer (usb (set_rx r s)) = r"
  "tx_ring_buffer (usb (set_rx r s)) = tx_ring_buffer (usb s)"
  by (simp_all add: set_rx_def)

lemma set_rx_update:
  "(set_rx r s)\<lparr>acquisition_state := a\<rparr> = set_rx r (s\<lparr>acquisition_state := a\<rparr>)"
  "(set_rx r s)\<lparr>integration_time_us := u\<rparr> = set_rx r (s\<lparr>integration_time_us := u\<rparr>)"
  "(set_rx r s)\<lparr>command_buffer := cb\<rparr> = set_rx r (s\<lparr>command_buffer := cb\<rparr>)"
  "(set_rx r s)\<lparr>command_index := i\<rparr> = set_rx r (s\<lparr>command_index := i\<rparr>)"
  "(set_rx r s)\<lparr>htim5 := h\<rparr> = set_rx r (s\<lparr>htim5 := h\<rparr>)"
  by (simp_all add: set_rx_def)

lemma handlers_set_rx:
  "command_handle_start (set_rx r s) = set_rx r (command_handle_start s)"
  "command_handle_stop (set_rx r s) = set_rx r (command_handle_stop s)"
  "command_handle_get_status (set_rx r s) = set_rx r (command_handle_get_status s)"
  "command_handle_set_integration_time (set_rx r s) us =
     (fst (command_handle_set_integration_time s us),
      set_rx r (snd (command_handle_set_integration_time s us)))"
  by (simp_all add: command_handle_start_def command_handle_stop_def
      command_handle_get_status_def command_handle_set_integration_time_def
      send_response_set_rx set_rx_update Let_def)

lemma parse_set_rx:
  "parse_and_execute_command (set_rx r s) cmd = set_rx r (parse_and_execute_command s cmd)"
  by (simp add: parse_and_execute_command_def handlers_set_rx send_response_set_rx
      Let_def split_beta)

lemma process_byte_set_rx: "process_byte (set_rx r s) b = set_rx r (process_byte s b)"
  by (simp add: process_byte_def parse_set_rx send_response_set_rx set_rx_update Let_def)

lemma set_rx_set_rx [simp]: "set_rx a (set_rx b s) = set_rx a s"
  by (simp add: set_rx_def)

lemma set_rx_self [simp]: "set_rx (rx_ring_buffer (usb s)) s = s"
  by (simp add: set_rx_def)

lemma foldl_process_byte_set_rx:
  "foldl process_byte (set_rx r s) bs = set_rx r (foldl process_byte s bs)"
  by (induction bs arbitrary: s) (simp_all add: process_byte_set_rx)

text \<open>
  On a receive buffer whose indices are within its size, \<open>command_layer_process\<close>
  returns: it handles the queued bytes in order, one \<open>process_byte\<close> each, and leaves the
  receive buffer drained.
\<close>

lemma process_drains:
  assumes "rb_inv (rx_ring_buffer (usb s))"
    and "unat (ring_buffer_available (rx_ring_buffer (usb s))) = n"
  shows "command_layer_process s =
     Some (set_rx (snd (read_multiple_loop (rx_ring_buffer (usb s)) n))
            (foldl process_byte s (rb_contents (rx_ring_buffer (usb s)))))"
  using assms
proof (induction n arbitrary: s)
  case 0
  then have "usb_transport_available (usb s) = 0"
    by (simp add: usb_transport_available_def unat_eq_0)
  moreover have "rb_contents (rx_ring_buffer (usb s)) = []"
    using 0 by (simp add: rb_contents_def)
  ultimately show ?case
    by (subst command_layer_process.simps) simp
next
  case (Suc n)
  let ?rx = "rx_ring_buffer (usb s)"
  have ne0: "usb_transport_available (usb s) \<noteq> 0"
    using Suc.prems(2) by (auto simp add: usb_transport_available_def)
  have ne: "head ?rx \<noteq> tail ?rx"
    using available_0_iff [OF Suc.prems(1)] Suc.prems(2) by auto
  obtain x xs where c: "rb_contents ?rx = x # xs"
    using Suc.prems(2) length_rb_contents [of ?rx] by (cases "rb_contents ?rx") simp_all
  obtain r rx' where rd0: "ring_buffer_read ?rx = (r, rx')"
    by (cases "ring_buffer_read ?rx")
  then have rx': "rx' = snd (ring_buffer_read ?rx)" and r: "r = fst (ring_buffer_read ?rx)"
    by simp_all
  have rd: "ring_buffer_read ?rx = (Some x, rx')"
    using read_contents(1) [OF Suc.prems(1) ne] c rd0 by simp
  have c': "rb_contents rx' = xs"
    unfolding rx' using read_contents(2) [OF Suc.prems(1) ne] c by simp
  have inv': "rb_inv rx'" unfolding rx' using Suc.prems(1) by (rule rb_inv_read)
  have av': "unat (ring_buffer_available rx') = n"
    unfolding rx' using read_avail [OF Suc.prems(1) ne] Suc.prems(2) by simp
  have rb: "usb_transport_read_byte (usb s) = (Some x, (usb s)\<lparr>rx_ring_buffer := rx'\<rparr>)"
    by (simp add: usb_transport_read_byte_def rd)
  let ?s1 = "process_byte (set_rx rx' s) x"
  have s1: "?s1 = set_rx rx' (process_byte s x)" by (rule process_byte_set_rx)
  have rx1: "rx_ring_buffer (usb ?s1) = rx'" by (simp add: s1)
  have step: "command_layer_process s = command_layer_process ?s1"
    by (subst command_layer_process.simps) (simp add: ne0 rb set_rx_def)
  have "command_layer_process ?s1 =
     Some (set_rx (snd (read_multiple_loop rx' n)) (foldl process_byte ?s1 xs))"
    using Suc.IH [of ?s1] inv' av' c' by (simp only: rx1)
  also have "foldl process_byte ?s1 xs = set_rx rx' (foldl process_byte (process_byte s x) xs)"
    by (simp only: s1 foldl_process_byte_set_rx)
  finally have "command_layer_process s =
     Some (set_rx (snd (read_multiple_loop rx' n)) (foldl process_byte (process_byte s x) xs))"
    by (simp add: step)
  moreover have "snd (read_multiple_loop ?rx (Suc n)) = snd (read_multiple_loop rx' n)"
    by (simp add: rd split_beta)
  ultimately show ?case by (simp add: c)
qed

lemma usb_send_response: "usb (send_response s r) = snd (usb_transport_write_string (usb s) r)"
  by (simp add: send_response_def)

lemma c_string_of_update:
  assumes "n < length xs" and "list_all (\<lambda>c. c \<noteq> 0) (map (nth xs) [0..<n])"
  shows "c_string_of (xs[n := 0]) = map (nth xs) [0..<n]"
proof -
  have t: "map (nth xs) [0..<n] = take n xs"
    using assms(1) by (auto simp add: list_eq_iff_nth_eq)
  have "xs[n := 0] = take n xs @ 0 # drop (Suc n) xs"
    using assms(1) by (rule upd_conv_take_nth_drop)
  moreover have "\<forall>c \<in> set (take n xs). c \<noteq> 0"
    using assms(2) unfolding t by (simp add: list_all_iff)
  ultimately show ?thesis
    unfolding c_string_of_def t by (simp add: takeWhile_append2)
qed

lemma c_str_eval: "c_str (c # cs) = of_char c # c_str cs" "c_str [] = []"
  by (simp_all add: c_str_def)

lemma write_string_tx:
  assumes wf: "rb_wf (tx_ring_buffer t)"
    and space: "unat (ring_buffer_available (tx_ring_buffer t)) + length r
                < unat (size_rb (tx_ring_buffer t))"
  shows "rb_wf (tx_ring_buffer (snd (usb_transport_write_string t r)))"
    and "size_rb (tx_ring_buffer (snd (usb_transport_write_string t r))) = size_rb (tx_ring_buffer t)"
    and "rb_contents (tx_ring_buffer (snd (usb_transport_write_string t r))) =
         rb_contents (tx_ring_buffer t) @ r"
    and "unat (ring_buffer_available (tx_ring_buffer (snd (usb_transport_write_string t r)))) =
         unat (ring_buffer_available (tx_ring_buffer t)) + length r"
    and "rx_ring_buffer (snd (usb_transport_write_string t r)) = rx_ring_buffer t"
proof -
  let ?tx = "tx_ring_buffer t"
  let ?t' = "snd (usb_transport_write_string t r)"
  have "unat (size_rb ?tx) < 65536"
    using unsigned_less [of "size_rb ?tx", where ?'a = nat] by simp
  with space have len: "unat (word_of_nat (length r) :: uint16_t) = length r"
    by (simp add: unat_of_nat)
  have tx': "tx_ring_buffer ?t' = snd (write_multiple_loop ?tx r 0)"
    by (simp add: usb_transport_write_string_def usb_transport_write_def
        ring_buffer_write_multiple_def split_beta Let_def len)
  from write_loop_ok [OF wf space, of 0]
  show "rb_wf (tx_ring_buffer ?t')"
    and "size_rb (tx_ring_buffer ?t') = size_rb ?tx"
    and c: "rb_contents (tx_ring_buffer ?t') = rb_contents ?tx @ r"
    unfolding tx' by simp_all
  show "unat (ring_buffer_available (tx_ring_buffer ?t')) = unat (ring_buffer_available ?tx) + length r"
    using length_rb_contents [of "tx_ring_buffer ?t'"] length_rb_contents [of ?tx]
    by (simp only: c length_append)
  show "rx_ring_buffer ?t' = rx_ring_buffer t"
    by (simp add: usb_transport_write_string_def usb_transport_write_def split_beta Let_def)
qed

lemma rx_callback_rx:
  assumes wf: "rb_wf (rx_ring_buffer t)"
    and space: "unat (ring_buffer_available (rx_ring_buffer t)) + length d
                < unat (size_rb (rx_ring_buffer t))"
  shows "rb_inv (rx_ring_buffer (usb_transport_rx_callback t d (word_of_nat (length d))))"
    and "rb_contents (rx_ring_buffer (usb_transport_rx_callback t d (word_of_nat (length d)))) =
         rb_contents (rx_ring_buffer t) @ d"
    and "tx_ring_buffer (usb_transport_rx_callback t d (word_of_nat (length d))) = tx_ring_buffer t"
proof -
  let ?rx = "rx_ring_buffer t"
  let ?t' = "usb_transport_rx_callback t d (word_of_nat (length d))"
  have "unat (size_rb ?rx) < 65536"
    using unsigned_less [of "size_rb ?rx", where ?'a = nat] by simp
  with space have l: "length d < 65536" by simp
  then have len: "unat (ucast (word_of_nat (length d) :: uint32_t) :: uint16_t) = length d"
    by (simp add: unsigned_ucast_eq unsigned_of_nat take_bit_nat_eq_self)
  have rx': "rx_ring_buffer ?t' = snd (write_multiple_loop ?rx d 0)"
    by (simp add: usb_transport_rx_callback_def ring_buffer_write_multiple_def split_beta
        Let_def len)
  from write_loop_ok [OF wf space, of 0]
  show "rb_inv (rx_ring_buffer ?t')"
    and "rb_contents (rx_ring_buffer ?t') = rb_contents ?rx @ d"
    unfolding rx' by (simp_all add: rb_wf_def)
  show "tx_ring_buffer ?t' = tx_ring_buffer t"
    by (simp add: usb_transport_rx_callback_def split_beta Let_def)
qed

lemma init_buffers:
  "rb_wf (rx_ring_buffer usb_transport_init)"
  "rb_wf (tx_ring_buffer usb_transport_init)"
  "ring_buffer_available (rx_ring_buffer usb_transport_init) = 0"
  "ring_buffer_available (tx_ring_buffer usb_transport_init) = 0"
  "size_rb (rx_ring_buffer usb_transport_init) = 256"
  "size_rb (tx_ring_buffer usb_transport_init) = 512"
  by (simp_all add: usb_transport_init_def usb_transport_reset_stats_def ring_buffer_init_def
      rb_wf_def rb_inv_def ring_buffer_available_def USB_RX_BUFFER_SIZE_def
      USB_TX_BUFFER_SIZE_def)

lemma power_on_state:
  "acquisition_state power_on = ACQ_STATE_IDLE"
  "integration_time_us power_on = 20"
  "command_index power_on = 0"
  "length (command_buffer power_on) = 64"
  "rx_ring_buffer (usb power_on) = rx_ring_buffer usb_transport_init"
  by (simp_all add: power_on_def command_layer_init_def CMD_BUFFER_SIZE_def)

lemma power_on_tx:
  "rb_wf (tx_ring_buffer (usb power_on))"
  "size_rb (tx_ring_buffer (usb power_on)) = 512"
  "rb_contents (tx_ring_buffer (usb power_on)) = c_str ''TCD1304_READY\<newline>''"
  "unat (ring_buffer_available (tx_ring_buffer (usb power_on))) = 14"
proof -
  let ?r = "c_str ''TCD1304_READY\<newline>''"
  have u: "usb power_on = snd (usb_transport_write_string usb_transport_init ?r)"
    by (simp add: power_on_def command_layer_init_def usb_send_response)
  have l: "length ?r = 14" by (simp add: c_str_def)
  have space: "unat (ring_buffer_available (tx_ring_buffer usb_transport_init)) + length ?r
      < unat (size_rb (tx_ring_buffer usb_transport_init))"
    by (simp add: init_buffers l)
  have c0: "rb_contents (tx_ring_buffer usb_transport_init) = []"
    by (simp add: rb_contents_def init_buffers)
  note w = write_string_tx [OF init_buffers(2) space]
  show "rb_wf (tx_ring_buffer (usb power_on))" unfolding u by (rule w(1))
  show "size_rb (tx_ring_buffer (usb power_on)) = 512"
    unfolding u by (simp add: w(2) init_buffers)
  show "rb_contents (tx_ring_buffer (usb power_on)) = ?r"
    unfolding u by (simp add: w(3) c0)
  show "unat (ring_buffer_available (tx_ring_buffer (usb power_on))) = 14"
    unfolding u by (simp add: w(4) init_buffers l)
qed

lemma two_replies_tx:
  assumes wf: "rb_wf (tx_ring_buffer t)"
    and space: "unat (ring_buffer_available (tx_ring_buffer t)) + length r1 + length r2
                < unat (size_rb (tx_ring_buffer t))"
  shows "rb_contents (tx_ring_buffer
           (snd (usb_transport_write_string (snd (usb_transport_write_string t r1)) r2))) =
         rb_contents (tx_ring_buffer t) @ r1 @ r2"
proof -
  let ?t1 = "snd (usb_transport_write_string t r1)"
  have s1: "unat (ring_buffer_available (tx_ring_buffer t)) + length r1
      < unat (size_rb (tx_ring_buffer t))"
    using space by simp
  note w1 = write_string_tx [OF wf s1]
  have s2: "unat (ring_buffer_available (tx_ring_buffer ?t1)) + length r2
      < unat (size_rb (tx_ring_buffer ?t1))"
    using space by (simp add: w1(2) w1(4))
  from write_string_tx(3) [OF w1(1) s2] show ?thesis by (simp add: w1(3))
qed

lemma process_received:
  assumes "length d < 256"
  shows "\<exists>r. command_layer_process (receive power_on d) =
           Some (set_rx r (foldl process_byte (receive power_on d) d))"
    and "command_index (receive power_on d) = 0"
    and "length (command_buffer (receive power_on d)) = 64"
    and "acquisition_state (receive power_on d) = ACQ_STATE_IDLE"
    and "integration_time_us (receive power_on d) = 20"
    and "tx_ring_buffer (usb (receive power_on d)) = tx_ring_buffer (usb power_on)"
proof -
  let ?t = "usb power_on"
  have wf: "rb_wf (rx_ring_buffer ?t)" by (simp add: power_on_state init_buffers)
  have space: "unat (ring_buffer_available (rx_ring_buffer ?t)) + length d
      < unat (size_rb (rx_ring_buffer ?t))"
    using assms by (simp add: power_on_state init_buffers)
  have c0: "rb_contents (rx_ring_buffer ?t) = []"
    by (simp add: rb_contents_def power_on_state init_buffers)
  note r = rx_callback_rx [OF wf space]
  have u: "usb (receive power_on d) = usb_transport_rx_callback ?t d (word_of_nat (length d))"
    by (simp add: receive_def)
  have inv: "rb_inv (rx_ring_buffer (usb (receive power_on d)))"
    unfolding u by (rule r(1))
  have c: "rb_contents (rx_ring_buffer (usb (receive power_on d))) = d"
    unfolding u by (simp add: r(2) c0)
  have n: "unat (ring_buffer_available (rx_ring_buffer (usb (receive power_on d)))) = length d"
    using length_rb_contents [of "rx_ring_buffer (usb (receive power_on d))"] by (simp only: c)
  from process_drains [OF inv n]
  show "\<exists>r. command_layer_process (receive power_on d) =
           Some (set_rx r (foldl process_byte (receive power_on d) d))"
    unfolding c by blast
  show "command_index (receive power_on d) = 0"
    "length (command_buffer (receive power_on d)) = 64"
    "acquisition_state (receive power_on d) = ACQ_STATE_IDLE"
    "integration_time_us (receive power_on d) = 20"
    by (simp_all add: receive_def power_on_state)
  show "tx_ring_buffer (usb (receive power_on d)) = tx_ring_buffer (usb power_on)"
    unfolding u by (rule r(3))
qed

lemmas eval_simps = c_str_eval process_byte_def Let_def CMD_BUFFER_SIZE_def
  parse_and_execute_command_def c_string_of_update upt_rec nth_list_update
  command_handle_start_def command_handle_stop_def command_handle_get_status_def
  command_handle_set_integration_time_def HAL_TIM_PWM_Stop_def HAL_TIM_PWM_Start_def
  snprintf_def format_lu.simps atoi_def isspace_def isdigit_def usb_send_response

lemma eval_oversized:
  assumes "command_index s = 0" and "length (command_buffer s) = 64"
  shows "acquisition_state (foldl process_byte s
           (c_str ''AAAAAAAAAAAAAAAAAAAAAAAAAAAAAAAAAAAAAAAAAAAAAAAAAAAAAAAAAAAAAAAASTART\<newline>'')) =
         ACQ_STATE_RUNNING"
    and "usb (foldl process_byte s
           (c_str ''AAAAAAAAAAAAAAAAAAAAAAAAAAAAAAAAAAAAAAAAAAAAAAAAAAAAAAAAAAAAAAAASTART\<newline>'')) =
         snd (usb_transport_write_string
               (snd (usb_transport_write_string (usb s) (c_str ''ERROR:CMD_TOO_LONG\<newline>'')))
               (c_str ''OK:STARTED\<newline>''))"
  using assms by (simp_all add: eval_simps)

lemma eval_set_int_time:
  assumes "command_index s = 0" and "length (command_buffer s) = 64"
    and "acquisition_state s = ACQ_STATE_IDLE"
  shows "integration_time_us (foldl process_byte s (c_str ''SET_INT_TIME:500\<newline>'')) = 500"
    and "usb (foldl process_byte s (c_str ''SET_INT_TIME:500\<newline>'')) =
         snd (usb_transport_write_string
               (snd (usb_transport_write_string (usb s) (c_str ''OK:INT_TIME_SET:500\<newline>'')))
               (c_str ''OK:INT_TIME_SET\<newline>''))"
  using assms by (simp_all add: eval_simps)

lemma eval_unknown_45:
  assumes "command_index s = 0" and "length (command_buffer s) = 64"
  shows "usb (foldl process_byte s
           (c_str ''AAAAAAAAAAAAAAAAAAAAAAAAAAAAAAAAAAAAAAAAAAAAA\<newline>'')) =
         snd (usb_transport_write_string (usb s)
               (c_str ''ERROR:UNKNOWN_CMD:AAAAAAAAAAAAAAAAAAAAAAAAAAAAAAAAAAAAAAAAAAAAA''))"
  using assms by (simp_all add: eval_simps)

lemma rb_contents_read_multiple:
  assumes "rb_inv rb"
  shows "fst (snd (ring_buffer_read_multiple rb (ring_buffer_available rb))) = rb_contents rb"
  using read_loop_ok [OF assms, of "unat (ring_buffer_available rb)"]
  by (simp add: ring_buffer_read_multiple_def split_beta)

text \<open>
  Three replies queued one after the other, and the lines \<open>START\<close> and
  \<open>SET_INT_TIME:500\<close> taken through the byte loop.
\<close>

lemma three_replies_tx:
  assumes wf: "rb_wf (tx_ring_buffer t)"
    and space: "unat (ring_buffer_available (tx_ring_buffer t)) + length r1 + length r2 + length r3
                < unat (size_rb (tx_ring_buffer t))"
  shows "rb_contents (tx_ring_buffer
           (snd (usb_transport_write_string
             (snd (usb_transport_write_string (snd (usb_transport_write_string t r1)) r2)) r3))) =
         rb_contents (tx_ring_buffer t) @ r1 @ r2 @ r3"
proof -
  let ?t1 = "snd (usb_transport_write_string t r1)"
  have s1: "unat (ring_buffer_available (tx_ring_buffer t)) + length r1
      < unat (size_rb (tx_ring_buffer t))"
    using space by simp
  note w1 = write_string_tx [OF wf s1]
  have s2: "unat (ring_buffer_available (tx_ring_buffer ?t1)) + length r2 + length r3
      < unat (size_rb (tx_ring_buffer ?t1))"
    using space by (simp add: w1(2) w1(4))
  from two_replies_tx [OF w1(1) s2] show ?thesis by (simp add: w1(3))
qed

lemma eval_start_set_int_time:
  assumes "command_index s = 0" and "length (command_buffer s) = 64"
  shows "acquisition_state (foldl process_byte s
           (c_str ''START\<newline>SET_INT_TIME:500\<newline>'')) = ACQ_STATE_RUNNING"
    and "integration_time_us (foldl process_byte s
           (c_str ''START\<newline>SET_INT_TIME:500\<newline>'')) = integration_time_us s"
    and "usb (foldl process_byte s (c_str ''START\<newline>SET_INT_TIME:500\<newline>'')) =
         snd (usb_transport_write_string
               (snd (usb_transport_write_string
                 (snd (usb_transport_write_string (usb s) (c_str ''OK:STARTED\<newline>'')))
                 (c_str ''ERROR:MUST_STOP_FIRST\<newline>'')))
               (c_str ''ERROR:INVALID_PARAM\<newline>''))"
  using assms by (simp_all add: eval_simps)

text \<open>
  A decimal argument beyond the range of \<open>int\<close> is read as \<open>INT_MAX\<close>.
\<close>

lemma atoi_out_of_range:
  "atoi (c_str ''18446744073709552116'') = 2147483647"
  by (simp add: atoi_def c_str_eval isspace_def isdigit_def Let_def)


section \<open>The command layer: claims\<close>

text \<open>
  Claim C6 says that every command line produces exactly one terminated reply line. The
  code does otherwise at two inputs, evaluated here from the start-up state, whose
  transmit buffer holds the ready message. The line \<open>SET_INT_TIME:500\<close> produces two
  reply lines, one sent by \<open>command_handle_set_integration_time\<close> and one by
  \<open>parse_and_execute_command\<close> from the returned status. An unknown command of 45
  characters produces a reply of 63 characters without the terminator, because
  \<open>snprintf\<close> cuts the text to the 64-byte response array.
\<close>

theorem set_int_time_two_replies:
  "acquisition_state power_on = ACQ_STATE_IDLE \<and>
   rb_contents (tx_ring_buffer (usb power_on)) = c_str ''TCD1304_READY\<newline>'' \<and>
   map_option (\<lambda>s. (integration_time_us s, rb_contents (tx_ring_buffer (usb s))))
     (command_layer_process (receive power_on (c_str ''SET_INT_TIME:500\<newline>''))) =
   Some (500, c_str ''TCD1304_READY\<newline>OK:INT_TIME_SET:500\<newline>OK:INT_TIME_SET\<newline>'') \<and>
   map_option (\<lambda>s. rb_contents (tx_ring_buffer (usb s)))
     (command_layer_process
       (receive power_on (c_str ''AAAAAAAAAAAAAAAAAAAAAAAAAAAAAAAAAAAAAAAAAAAAA\<newline>''))) =
   Some (c_str ''TCD1304_READY\<newline>ERROR:UNKNOWN_CMD:AAAAAAAAAAAAAAAAAAAAAAAAAAAAAAAAAAAAAAAAAAAAA'')"
proof -
  let ?d = "c_str ''SET_INT_TIME:500\<newline>''"
  let ?s = "receive power_on ?d"
  have len: "length ?d < 256" by (simp add: c_str_def)
  note pr = process_received [OF len]
  from pr(1) obtain r where run:
    "command_layer_process ?s = Some (set_rx r (foldl process_byte ?s ?d))" by blast
  have time: "integration_time_us (foldl process_byte ?s ?d) = 500"
    using pr(2,3,4) by (rule eval_set_int_time(1))
  have wf: "rb_wf (tx_ring_buffer (usb ?s))" by (simp only: pr(6) power_on_tx)
  have space: "unat (ring_buffer_available (tx_ring_buffer (usb ?s))) +
      length (c_str ''OK:INT_TIME_SET:500\<newline>'') + length (c_str ''OK:INT_TIME_SET\<newline>'')
      < unat (size_rb (tx_ring_buffer (usb ?s)))"
    unfolding pr(6) by (simp add: power_on_tx c_str_def)
  have tx: "rb_contents (tx_ring_buffer (usb (foldl process_byte ?s ?d))) =
      c_str ''TCD1304_READY\<newline>OK:INT_TIME_SET:500\<newline>OK:INT_TIME_SET\<newline>''"
    unfolding eval_set_int_time(2) [OF pr(2,3,4)] two_replies_tx [OF wf space] pr(6)
    by (simp add: power_on_tx c_str_def)
  have a: "map_option (\<lambda>s. (integration_time_us s, rb_contents (tx_ring_buffer (usb s))))
     (command_layer_process ?s) =
     Some (500, c_str ''TCD1304_READY\<newline>OK:INT_TIME_SET:500\<newline>OK:INT_TIME_SET\<newline>'')"
    by (simp add: run time tx)
  let ?e = "c_str ''AAAAAAAAAAAAAAAAAAAAAAAAAAAAAAAAAAAAAAAAAAAAA\<newline>''"
  let ?u = "receive power_on ?e"
  let ?reply = "c_str ''ERROR:UNKNOWN_CMD:AAAAAAAAAAAAAAAAAAAAAAAAAAAAAAAAAAAAAAAAAAAAA''"
  have len2: "length ?e < 256" by (simp add: c_str_def)
  note pu = process_received [OF len2]
  from pu(1) obtain r2 where run2:
    "command_layer_process ?u = Some (set_rx r2 (foldl process_byte ?u ?e))" by blast
  have wf2: "rb_wf (tx_ring_buffer (usb ?u))" by (simp only: pu(6) power_on_tx)
  have space2: "unat (ring_buffer_available (tx_ring_buffer (usb ?u))) + length ?reply
      < unat (size_rb (tx_ring_buffer (usb ?u)))"
    unfolding pu(6) by (simp add: power_on_tx c_str_def)
  have tx2: "rb_contents (tx_ring_buffer (usb (foldl process_byte ?u ?e))) =
      c_str ''TCD1304_READY\<newline>ERROR:UNKNOWN_CMD:AAAAAAAAAAAAAAAAAAAAAAAAAAAAAAAAAAAAAAAAAAAAA''"
    unfolding eval_unknown_45 [OF pu(2,3)] write_string_tx(3) [OF wf2 space2] pu(6)
    by (simp add: power_on_tx c_str_def)
  have b: "map_option (\<lambda>s. rb_contents (tx_ring_buffer (usb s))) (command_layer_process ?u) =
     Some (c_str ''TCD1304_READY\<newline>ERROR:UNKNOWN_CMD:AAAAAAAAAAAAAAAAAAAAAAAAAAAAAAAAAAAAAAAAAAAAA'')"
    by (simp add: run2 tx2)
  from power_on_state(1) power_on_tx(3) a b show ?thesis by (intro conjI)
qed

text \<open>
  Claim C7. When the acquisition state is \<open>Running\<close>,
  \<open>command_handle_set_integration_time\<close> returns \<open>CMD_ERROR_BUSY\<close> for every argument,
  its only effect is one call of \<open>send_response\<close> with \<open>ERROR:MUST_STOP_FIRST\<close>, the
  acquisition state, the stored integration time and the timer are unchanged, and the
  reply is appended to the queued transmit bytes when the transmit buffer has room for
  its 22 bytes. When the command arrives as a line, \<open>parse_and_execute_command\<close> on
  every line that starts with \<open>SET_INT_TIME:\<close> is exactly that call of
  \<open>send_response\<close> with \<open>ERROR:MUST_STOP_FIRST\<close> followed by a second one with
  \<open>ERROR:INVALID_PARAM\<close> (the dispatcher answers every status other than \<open>CMD_OK\<close>
  and \<open>CMD_ERROR_NOT_IMPLEMENTED\<close> with it): state, stored time and timer are unchanged
  and both lines are appended to the queued transmit bytes, in this order, when there is
  room for their 42 bytes. Last, the bytes \<open>START\<close>, \<open>SET_INT_TIME:500\<close> received after
  power-on and taken through \<open>command_layer_process\<close>: the loop returns, the state is
  \<open>Running\<close>, the stored time is still the initial 20, and the transmit buffer holds
  \<open>TCD1304_READY\<close>, \<open>OK:STARTED\<close>, \<open>ERROR:MUST_STOP_FIRST\<close>, \<open>ERROR:INVALID_PARAM\<close>.
\<close>

theorem set_integration_time_while_running:
  assumes "acquisition_state s = ACQ_STATE_RUNNING"
  shows "command_handle_set_integration_time s microseconds =
           (CMD_ERROR_BUSY, send_response s (c_str ''ERROR:MUST_STOP_FIRST\<newline>'')) \<and>
         acquisition_state (snd (command_handle_set_integration_time s microseconds)) =
           ACQ_STATE_RUNNING \<and>
         integration_time_us (snd (command_handle_set_integration_time s microseconds)) =
           integration_time_us s \<and>
         htim5 (snd (command_handle_set_integration_time s microseconds)) = htim5 s \<and>
         (rb_wf (tx_ring_buffer (usb s)) \<and>
          unat (ring_buffer_available (tx_ring_buffer (usb s))) + 22
            < unat (size_rb (tx_ring_buffer (usb s))) \<longrightarrow>
          rb_contents (tx_ring_buffer (usb (snd (command_handle_set_integration_time s microseconds)))) =
            rb_contents (tx_ring_buffer (usb s)) @ c_str ''ERROR:MUST_STOP_FIRST\<newline>'') \<and>
         (\<forall>cmd. take 13 (rev (dropWhile (\<lambda>c. c = 0x20 \<or> c = 0x0D)
                      (rev (take (CMD_BUFFER_SIZE - 1) (c_string_of cmd))))) =
                  c_str ''SET_INT_TIME:'' \<longrightarrow>
            parse_and_execute_command s cmd =
              send_response (send_response s (c_str ''ERROR:MUST_STOP_FIRST\<newline>''))
                (c_str ''ERROR:INVALID_PARAM\<newline>'') \<and>
            acquisition_state (parse_and_execute_command s cmd) = ACQ_STATE_RUNNING \<and>
            integration_time_us (parse_and_execute_command s cmd) = integration_time_us s \<and>
            htim5 (parse_and_execute_command s cmd) = htim5 s \<and>
            (rb_wf (tx_ring_buffer (usb s)) \<and>
             unat (ring_buffer_available (tx_ring_buffer (usb s))) + 42
               < unat (size_rb (tx_ring_buffer (usb s))) \<longrightarrow>
             rb_contents (tx_ring_buffer (usb (parse_and_execute_command s cmd))) =
               rb_contents (tx_ring_buffer (usb s)) @
               c_str ''ERROR:MUST_STOP_FIRST\<newline>'' @ c_str ''ERROR:INVALID_PARAM\<newline>'')) \<and>
         map_option
           (\<lambda>s'. (acquisition_state s', integration_time_us s',
                  rb_contents (tx_ring_buffer (usb s'))))
           (command_layer_process
              (receive power_on (c_str ''START\<newline>SET_INT_TIME:500\<newline>''))) =
         Some (ACQ_STATE_RUNNING, 20,
               c_str ''TCD1304_READY\<newline>OK:STARTED\<newline>ERROR:MUST_STOP_FIRST\<newline>ERROR:INVALID_PARAM\<newline>'')"
proof -
  let ?r = "c_str ''ERROR:MUST_STOP_FIRST\<newline>''"
  let ?q = "c_str ''ERROR:INVALID_PARAM\<newline>''"
  have h: "command_handle_set_integration_time s us = (CMD_ERROR_BUSY, send_response s ?r)"
    for us
    using assms by (simp add: command_handle_set_integration_time_def)
  have l: "length ?r = 22" "length ?q = 20" by (simp_all add: c_str_def)
  have tx: "rb_contents (tx_ring_buffer (usb (send_response s ?r))) =
            rb_contents (tx_ring_buffer (usb s)) @ ?r"
    if "rb_wf (tx_ring_buffer (usb s))"
      and "unat (ring_buffer_available (tx_ring_buffer (usb s))) + 22
            < unat (size_rb (tx_ring_buffer (usb s)))"
    using that by (intro send_response_tx(3)) (simp_all add: l)
  have p: "parse_and_execute_command s cmd = send_response (send_response s ?r) ?q"
    if "take 13 (rev (dropWhile (\<lambda>c. c = 0x20 \<or> c = 0x0D)
                      (rev (take (CMD_BUFFER_SIZE - 1) (c_string_of cmd))))) =
        c_str ''SET_INT_TIME:''" for cmd
    using that
    by (auto simp add: parse_and_execute_command_def Let_def h c_str_eval)
  have tx2: "rb_contents (tx_ring_buffer (usb (send_response (send_response s ?r) ?q))) =
            rb_contents (tx_ring_buffer (usb s)) @ ?r @ ?q"
    if wf: "rb_wf (tx_ring_buffer (usb s))"
      and sp: "unat (ring_buffer_available (tx_ring_buffer (usb s))) + 42
            < unat (size_rb (tx_ring_buffer (usb s)))"
  proof -
    have "unat (ring_buffer_available (tx_ring_buffer (usb s))) + length ?r + length ?q
        < unat (size_rb (tx_ring_buffer (usb s)))"
      using sp by (simp only: l)
    from two_replies_tx [OF wf this] show ?thesis
      by (simp only: usb_send_response)
  qed
  let ?d = "c_str ''START\<newline>SET_INT_TIME:500\<newline>''"
  let ?u = "receive power_on ?d"
  have len: "length ?d < 256" by (simp add: c_str_def)
  note pr = process_received [OF len]
  from pr(1) obtain r where run:
    "command_layer_process ?u = Some (set_rx r (foldl process_byte ?u ?d))" by blast
  note ev = eval_start_set_int_time [OF pr(2,3)]
  have wfu: "rb_wf (tx_ring_buffer (usb ?u))" by (simp only: pr(6) power_on_tx)
  have spu: "unat (ring_buffer_available (tx_ring_buffer (usb ?u))) +
      length (c_str ''OK:STARTED\<newline>'') + length ?r + length ?q
      < unat (size_rb (tx_ring_buffer (usb ?u)))"
    unfolding pr(6) by (simp add: power_on_tx c_str_def)
  have txu: "rb_contents (tx_ring_buffer (usb (foldl process_byte ?u ?d))) =
      c_str ''TCD1304_READY\<newline>OK:STARTED\<newline>ERROR:MUST_STOP_FIRST\<newline>ERROR:INVALID_PARAM\<newline>''"
    unfolding ev(3) three_replies_tx [OF wfu spu] pr(6)
    by (simp add: power_on_tx c_str_def)
  have e: "map_option
           (\<lambda>s'. (acquisition_state s', integration_time_us s',
                  rb_contents (tx_ring_buffer (usb s'))))
           (command_layer_process ?u) =
         Some (ACQ_STATE_RUNNING, 20,
               c_str ''TCD1304_READY\<newline>OK:STARTED\<newline>ERROR:MUST_STOP_FIRST\<newline>ERROR:INVALID_PARAM\<newline>'')"
    by (simp add: run ev(1) ev(2) pr(5) txu)
  have a: "command_handle_set_integration_time s microseconds =
           (CMD_ERROR_BUSY, send_response s ?r) \<and>
         acquisition_state (snd (command_handle_set_integration_time s microseconds)) =
           ACQ_STATE_RUNNING \<and>
         integration_time_us (snd (command_handle_set_integration_time s microseconds)) =
           integration_time_us s \<and>
         htim5 (snd (command_handle_set_integration_time s microseconds)) = htim5 s \<and>
         (rb_wf (tx_ring_buffer (usb s)) \<and>
          unat (ring_buffer_available (tx_ring_buffer (usb s))) + 22
            < unat (size_rb (tx_ring_buffer (usb s))) \<longrightarrow>
          rb_contents (tx_ring_buffer (usb (snd (command_handle_set_integration_time s microseconds)))) =
            rb_contents (tx_ring_buffer (usb s)) @ ?r)"
    using h tx assms by simp
  have b: "\<forall>cmd. take 13 (rev (dropWhile (\<lambda>c. c = 0x20 \<or> c = 0x0D)
                      (rev (take (CMD_BUFFER_SIZE - 1) (c_string_of cmd))))) =
                  c_str ''SET_INT_TIME:'' \<longrightarrow>
            parse_and_execute_command s cmd = send_response (send_response s ?r) ?q \<and>
            acquisition_state (parse_and_execute_command s cmd) = ACQ_STATE_RUNNING \<and>
            integration_time_us (parse_and_execute_command s cmd) = integration_time_us s \<and>
            htim5 (parse_and_execute_command s cmd) = htim5 s \<and>
            (rb_wf (tx_ring_buffer (usb s)) \<and>
             unat (ring_buffer_available (tx_ring_buffer (usb s))) + 42
               < unat (size_rb (tx_ring_buffer (usb s))) \<longrightarrow>
             rb_contents (tx_ring_buffer (usb (parse_and_execute_command s cmd))) =
               rb_contents (tx_ring_buffer (usb s)) @ ?r @ ?q)"
  proof (intro allI impI)
    fix cmd
    assume pre: "take 13 (rev (dropWhile (\<lambda>c. c = 0x20 \<or> c = 0x0D)
                      (rev (take (CMD_BUFFER_SIZE - 1) (c_string_of cmd))))) =
                  c_str ''SET_INT_TIME:''"
    show "parse_and_execute_command s cmd = send_response (send_response s ?r) ?q \<and>
            acquisition_state (parse_and_execute_command s cmd) = ACQ_STATE_RUNNING \<and>
            integration_time_us (parse_and_execute_command s cmd) = integration_time_us s \<and>
            htim5 (parse_and_execute_command s cmd) = htim5 s \<and>
            (rb_wf (tx_ring_buffer (usb s)) \<and>
             unat (ring_buffer_available (tx_ring_buffer (usb s))) + 42
               < unat (size_rb (tx_ring_buffer (usb s))) \<longrightarrow>
             rb_contents (tx_ring_buffer (usb (parse_and_execute_command s cmd))) =
               rb_contents (tx_ring_buffer (usb s)) @ ?r @ ?q)"
      unfolding p [OF pre] using assms tx2 by simp
  qed
  from a b e show ?thesis by (intro conjI) (erule conjunct1 | assumption | (erule conjE)+)+
qed


theorem set_integration_time_while_running_witness:
  "acquisition_state (command_handle_start power_on) = ACQ_STATE_RUNNING \<and>
   rb_wf (tx_ring_buffer (usb (command_handle_start power_on))) \<and>
   unat (ring_buffer_available (tx_ring_buffer (usb (command_handle_start power_on)))) + 22
     < unat (size_rb (tx_ring_buffer (usb (command_handle_start power_on)))) \<and>
   unat (ring_buffer_available (tx_ring_buffer (usb (command_handle_start power_on)))) + 42
     < unat (size_rb (tx_ring_buffer (usb (command_handle_start power_on)))) \<and>
   take 13 (rev (dropWhile (\<lambda>c. c = 0x20 \<or> c = 0x0D)
      (rev (take (CMD_BUFFER_SIZE - 1) (c_string_of (c_str ''SET_INT_TIME:500'' @ [0])))))) =
     c_str ''SET_INT_TIME:'' \<and>
   fst (command_handle_set_integration_time (command_handle_start power_on) 500) =
     CMD_ERROR_BUSY \<and>
   integration_time_us
     (snd (command_handle_set_integration_time (command_handle_start power_on) 500)) = 20 \<and>
   rb_contents (tx_ring_buffer (usb
     (snd (command_handle_set_integration_time (command_handle_start power_on) 500)))) =
     c_str ''TCD1304_READY\<newline>OK:STARTED\<newline>ERROR:MUST_STOP_FIRST\<newline>'' \<and>
   integration_time_us
     (parse_and_execute_command (command_handle_start power_on)
        (c_str ''SET_INT_TIME:500'' @ [0])) = 20 \<and>
   acquisition_state
     (parse_and_execute_command (command_handle_start power_on)
        (c_str ''SET_INT_TIME:500'' @ [0])) = ACQ_STATE_RUNNING \<and>
   rb_contents (tx_ring_buffer (usb
     (parse_and_execute_command (command_handle_start power_on)
        (c_str ''SET_INT_TIME:500'' @ [0])))) =
     c_str ''TCD1304_READY\<newline>OK:STARTED\<newline>ERROR:MUST_STOP_FIRST\<newline>ERROR:INVALID_PARAM\<newline>''"
proof -
  let ?s = "command_handle_start power_on"
  let ?ok = "c_str ''OK:STARTED\<newline>''"
  let ?cmd = "c_str ''SET_INT_TIME:500'' @ [0]"
  have run: "acquisition_state ?s = ACQ_STATE_RUNNING"
    by (simp add: command_handle_start_def)
  have time: "integration_time_us ?s = 20"
    by (simp add: command_handle_start_def power_on_state)
  have u: "usb ?s = snd (usb_transport_write_string (usb power_on) ?ok)"
    by (simp add: command_handle_start_def usb_send_response)
  have space0: "unat (ring_buffer_available (tx_ring_buffer (usb power_on))) + length ?ok
      < unat (size_rb (tx_ring_buffer (usb power_on)))"
    by (simp add: power_on_tx c_str_def)
  note w = write_string_tx [OF power_on_tx(1) space0]
  have wf: "rb_wf (tx_ring_buffer (usb ?s))" unfolding u by (rule w(1))
  have space: "unat (ring_buffer_available (tx_ring_buffer (usb ?s))) + 22
      < unat (size_rb (tx_ring_buffer (usb ?s)))"
    unfolding u w(2) w(4) by (simp add: power_on_tx c_str_def)
  have space2: "unat (ring_buffer_available (tx_ring_buffer (usb ?s))) + 42
      < unat (size_rb (tx_ring_buffer (usb ?s)))"
    unfolding u w(2) w(4) by (simp add: power_on_tx c_str_def)
  have c: "rb_contents (tx_ring_buffer (usb ?s)) = c_str ''TCD1304_READY\<newline>OK:STARTED\<newline>''"
    unfolding u w(3) by (simp add: power_on_tx c_str_def)
  have pre: "take 13 (rev (dropWhile (\<lambda>c. c = 0x20 \<or> c = 0x0D)
      (rev (take (CMD_BUFFER_SIZE - 1) (c_string_of ?cmd))))) = c_str ''SET_INT_TIME:''"
    by (simp add: c_str_eval c_string_of_def CMD_BUFFER_SIZE_def)
  note t = set_integration_time_while_running [OF run, of 500]
  have a: "fst (command_handle_set_integration_time ?s 500) = CMD_ERROR_BUSY"
    using t by simp
  have b: "integration_time_us (snd (command_handle_set_integration_time ?s 500)) = 20"
    using t time by simp
  have d: "rb_contents (tx_ring_buffer (usb (snd (command_handle_set_integration_time ?s 500)))) =
     c_str ''TCD1304_READY\<newline>OK:STARTED\<newline>ERROR:MUST_STOP_FIRST\<newline>''"
  proof -
    from t wf space have
      "rb_contents (tx_ring_buffer (usb (snd (command_handle_set_integration_time ?s 500)))) =
       rb_contents (tx_ring_buffer (usb ?s)) @ c_str ''ERROR:MUST_STOP_FIRST\<newline>''"
      by blast
    then show ?thesis unfolding c by (simp add: c_str_def)
  qed
  from t have q: "take 13 (rev (dropWhile (\<lambda>c. c = 0x20 \<or> c = 0x0D)
                      (rev (take (CMD_BUFFER_SIZE - 1) (c_string_of ?cmd))))) =
                  c_str ''SET_INT_TIME:'' \<longrightarrow>
            parse_and_execute_command ?s ?cmd =
              send_response (send_response ?s (c_str ''ERROR:MUST_STOP_FIRST\<newline>''))
                (c_str ''ERROR:INVALID_PARAM\<newline>'') \<and>
            acquisition_state (parse_and_execute_command ?s ?cmd) = ACQ_STATE_RUNNING \<and>
            integration_time_us (parse_and_execute_command ?s ?cmd) = integration_time_us ?s \<and>
            htim5 (parse_and_execute_command ?s ?cmd) = htim5 ?s \<and>
            (rb_wf (tx_ring_buffer (usb ?s)) \<and>
             unat (ring_buffer_available (tx_ring_buffer (usb ?s))) + 42
               < unat (size_rb (tx_ring_buffer (usb ?s))) \<longrightarrow>
             rb_contents (tx_ring_buffer (usb (parse_and_execute_command ?s ?cmd))) =
               rb_contents (tx_ring_buffer (usb ?s)) @
               c_str ''ERROR:MUST_STOP_FIRST\<newline>'' @ c_str ''ERROR:INVALID_PARAM\<newline>'')"
    by blast
  note q' = q [rule_format, OF pre]
  have e: "integration_time_us (parse_and_execute_command ?s ?cmd) = 20"
  proof -
    from q' have "integration_time_us (parse_and_execute_command ?s ?cmd) =
        integration_time_us ?s"
      by blast
    then show ?thesis by (simp only: time)
  qed
  have f: "acquisition_state (parse_and_execute_command ?s ?cmd) = ACQ_STATE_RUNNING"
    using q' by blast
  have g: "rb_contents (tx_ring_buffer (usb (parse_and_execute_command ?s ?cmd))) =
     c_str ''TCD1304_READY\<newline>OK:STARTED\<newline>ERROR:MUST_STOP_FIRST\<newline>ERROR:INVALID_PARAM\<newline>''"
  proof -
    from q' wf space2 have
      "rb_contents (tx_ring_buffer (usb (parse_and_execute_command ?s ?cmd))) =
       rb_contents (tx_ring_buffer (usb ?s)) @
       c_str ''ERROR:MUST_STOP_FIRST\<newline>'' @ c_str ''ERROR:INVALID_PARAM\<newline>''"
      by blast
    then show ?thesis unfolding c by (simp add: c_str_def)
  qed
  from run wf space space2 pre a b d e f g show ?thesis by (intro conjI)
qed

text \<open>
  The earlier revision of the function, the stub, has no check of the acquisition state:
  it stores an in-range value whatever the state.
\<close>

lemma stub_revision_while_running:
  "command_handle_set_integration_time_stub (s\<lparr>acquisition_state := ACQ_STATE_RUNNING\<rparr>) 500 =
     (CMD_ERROR_NOT_IMPLEMENTED,
      s\<lparr>acquisition_state := ACQ_STATE_RUNNING, integration_time_us := 500\<rparr>)"
  by (simp add: command_handle_set_integration_time_stub_def)

text \<open>
  Claim C8 says that no part of an oversized line is dispatched. Evaluated from the
  start-up state (idle): a line of 69 characters, 64 times \<open>A\<close> followed by \<open>START\<close>,
  then the terminator. The 64th character resets the accumulator and sends
  \<open>ERROR:CMD_TOO_LONG\<close>; the remaining characters \<open>START\<close> of the same line are
  accumulated as a new command and dispatched at the terminator: the acquisition state
  becomes \<open>Running\<close> and \<open>OK:STARTED\<close> is sent.
\<close>

theorem oversized_line_tail_dispatched:
  "acquisition_state power_on = ACQ_STATE_IDLE \<and>
   rb_contents (tx_ring_buffer (usb power_on)) = c_str ''TCD1304_READY\<newline>'' \<and>
   length ''AAAAAAAAAAAAAAAAAAAAAAAAAAAAAAAAAAAAAAAAAAAAAAAAAAAAAAAAAAAAAAAASTART'' = 69 \<and>
   map_option (\<lambda>s. (acquisition_state s, rb_contents (tx_ring_buffer (usb s))))
     (command_layer_process (receive power_on
        (c_str ''AAAAAAAAAAAAAAAAAAAAAAAAAAAAAAAAAAAAAAAAAAAAAAAAAAAAAAAAAAAAAAAASTART\<newline>''))) =
   Some (ACQ_STATE_RUNNING,
         c_str ''TCD1304_READY\<newline>ERROR:CMD_TOO_LONG\<newline>OK:STARTED\<newline>'')"
proof -
  let ?d = "c_str ''AAAAAAAAAAAAAAAAAAAAAAAAAAAAAAAAAAAAAAAAAAAAAAAAAAAAAAAAAAAAAAAASTART\<newline>''"
  let ?s = "receive power_on ?d"
  have len: "length ?d < 256" by (simp add: c_str_def)
  note pr = process_received [OF len]
  from pr(1) obtain r where run:
    "command_layer_process ?s = Some (set_rx r (foldl process_byte ?s ?d))" by blast
  have st: "acquisition_state (foldl process_byte ?s ?d) = ACQ_STATE_RUNNING"
    using pr(2,3) by (rule eval_oversized(1))
  have wf: "rb_wf (tx_ring_buffer (usb ?s))" by (simp only: pr(6) power_on_tx)
  have space: "unat (ring_buffer_available (tx_ring_buffer (usb ?s))) +
      length (c_str ''ERROR:CMD_TOO_LONG\<newline>'') + length (c_str ''OK:STARTED\<newline>'')
      < unat (size_rb (tx_ring_buffer (usb ?s)))"
    unfolding pr(6) by (simp add: power_on_tx c_str_def)
  have tx: "rb_contents (tx_ring_buffer (usb (foldl process_byte ?s ?d))) =
      c_str ''TCD1304_READY\<newline>ERROR:CMD_TOO_LONG\<newline>OK:STARTED\<newline>''"
    unfolding eval_oversized(2) [OF pr(2,3)] two_replies_tx [OF wf space] pr(6)
    by (simp add: power_on_tx c_str_def)
  have a: "map_option (\<lambda>s. (acquisition_state s, rb_contents (tx_ring_buffer (usb s))))
     (command_layer_process ?s) =
     Some (ACQ_STATE_RUNNING,
           c_str ''TCD1304_READY\<newline>ERROR:CMD_TOO_LONG\<newline>OK:STARTED\<newline>'')"
    by (simp add: run st tx)
  have l: "length ''AAAAAAAAAAAAAAAAAAAAAAAAAAAAAAAAAAAAAAAAAAAAAAAAAAAAAAAAAAAAAAAASTART'' = 69"
    by simp
  from power_on_state(1) power_on_tx(3) l a show ?thesis by (intro conjI)
qed

text \<open>
  What the overflow branch itself does: with 63 characters accumulated, a further
  character that is not a terminator is dropped together with the accumulated ones, and
  \<open>ERROR:CMD_TOO_LONG\<close> is sent. The accumulator then starts again at index 0, which is
  why the rest of the line is taken as a new command.
\<close>

lemma overflow_branch:
  assumes "command_index s = 63" and "byte \<noteq> 0x0A" and "byte \<noteq> 0x0D"
  shows "process_byte s byte =
         send_response (s\<lparr>command_index := 0\<rparr>) (c_str ''ERROR:CMD_TOO_LONG\<newline>'')"
  using assms by (simp add: process_byte_def CMD_BUFFER_SIZE_def)


end
